theory Spec2Isabelle
  imports Complex_Main "HOL-Library.AList" "HOL-Library.Multiset"
begin

section \<open>Floating-point values\<close>

text \<open>
  The header is generic in a floating-point type \<open>T\<close>. A value of \<open>T\<close> is modelled as
  a real number, one of the two infinities, or NaN. Comparisons, \<open>std::min\<close>,
  \<open>std::max\<close>, \<open>fabs\<close>, \<open>sqrt\<close> and the special cases of the arithmetic
  (NaN propagation, \<open>inf - inf\<close>, \<open>0 * inf\<close>, division by zero) follow IEEE 754.
  Arithmetic on finite values is exact: rounding, overflow to infinity and the sign of
  zero are not modelled. \<open>numeric_limits<T>::max()\<close> is the largest finite double.
\<close>

datatype fl = NaN | NInf | Fin real | PInf

definition isnan :: "fl \<Rightarrow> bool" where
  "isnan x = (x = NaN)"

fun fless :: "fl \<Rightarrow> fl \<Rightarrow> bool" where
  "fless (Fin x) (Fin y) = (x < y)"
| "fless (Fin x) PInf = True"
| "fless NInf (Fin y) = True"
| "fless NInf PInf = True"
| "fless _ _ = False"

fun fle :: "fl \<Rightarrow> fl \<Rightarrow> bool" where
  "fle (Fin x) (Fin y) = (x \<le> y)"
| "fle NaN _ = False"
| "fle _ NaN = False"
| "fle NInf _ = True"
| "fle _ PInf = True"
| "fle _ _ = False"

fun fneg :: "fl \<Rightarrow> fl" where
  "fneg NaN = NaN"
| "fneg NInf = PInf"
| "fneg (Fin x) = Fin (- x)"
| "fneg PInf = NInf"

fun fabs :: "fl \<Rightarrow> fl" where
  "fabs NaN = NaN"
| "fabs NInf = PInf"
| "fabs (Fin x) = Fin \<bar>x\<bar>"
| "fabs PInf = PInf"

fun fadd :: "fl \<Rightarrow> fl \<Rightarrow> fl" where
  "fadd (Fin x) (Fin y) = Fin (x + y)"
| "fadd NaN _ = NaN"
| "fadd _ NaN = NaN"
| "fadd PInf NInf = NaN"
| "fadd NInf PInf = NaN"
| "fadd PInf _ = PInf"
| "fadd _ PInf = PInf"
| "fadd NInf _ = NInf"
| "fadd _ NInf = NInf"

definition fsub :: "fl \<Rightarrow> fl \<Rightarrow> fl" where
  "fsub a b = fadd a (fneg b)"

fun fmul :: "fl \<Rightarrow> fl \<Rightarrow> fl" where
  "fmul (Fin x) (Fin y) = Fin (x * y)"
| "fmul NaN _ = NaN"
| "fmul _ NaN = NaN"
| "fmul (Fin x) i = (if x = 0 then NaN else if 0 < x then i else fneg i)"
| "fmul i (Fin y) = (if y = 0 then NaN else if 0 < y then i else fneg i)"
| "fmul PInf i = i"
| "fmul NInf i = fneg i"

fun fdiv :: "fl \<Rightarrow> fl \<Rightarrow> fl" where
  "fdiv (Fin x) (Fin y) =
     (if y = 0 then (if x = 0 then NaN else if 0 < x then PInf else NInf) else Fin (x / y))"
| "fdiv NaN _ = NaN"
| "fdiv _ NaN = NaN"
| "fdiv (Fin x) _ = Fin 0"
| "fdiv i (Fin y) = (if 0 \<le> y then i else fneg i)"
| "fdiv _ _ = NaN"

fun fsqrt :: "fl \<Rightarrow> fl" where
  "fsqrt NaN = NaN"
| "fsqrt NInf = NaN"
| "fsqrt (Fin x) = (if x < 0 then NaN else Fin (sqrt x))"
| "fsqrt PInf = PInf"

text \<open>\<open>std::min(a, b)\<close> is \<open>(b < a) ? b : a\<close> and \<open>std::max(a, b)\<close> is
  \<open>(a < b) ? b : a\<close>.\<close>

definition std_min :: "fl \<Rightarrow> fl \<Rightarrow> fl" where
  "std_min a b = (if fless b a then b else a)"

definition std_max :: "fl \<Rightarrow> fl \<Rightarrow> fl" where
  "std_max a b = (if fless a b then b else a)"

definition flt_max :: real where
  "flt_max = (2 - 1 / 2 ^ 52) * 2 ^ 1023"

definition numeric_limits_max :: fl where
  "numeric_limits_max = Fin flt_max"

section \<open>Failures\<close>

text \<open>
  Every \<open>throw std::runtime_error(msg)\<close> of the header is one constructor, named after
  its message. \<open>AssertionFailed\<close> is a failed \<open>assert\<close>, which aborts the program.
  \<open>OutOfBounds\<close> is an access to a cell buffer outside its length, which the header
  does not check.
\<close>

datatype error =
    InvalidSize | InvalidSpacing | InvalidSpeed | SizeMismatch | InvalidIndex
  | InvalidDistance | InvalidNormal
  | CannotPopEmpty | IndexMustBeUnique | IndexNotFound
  | NewDistanceMustBeGreater | NewDistanceMustBeLess
  | NarrowBandEmpty
  | AssertionFailed | OutOfBounds

definition bindE :: "error + 'a \<Rightarrow> ('a \<Rightarrow> error + 'b) \<Rightarrow> error + 'b" where
  "bindE m f = (case m of Inl e \<Rightarrow> Inl e | Inr x \<Rightarrow> f x)"

fun foldE :: "('a \<Rightarrow> 's \<Rightarrow> error + 's) \<Rightarrow> 'a list \<Rightarrow> 's \<Rightarrow> error + 's" where
  "foldE f [] s = Inr s"
| "foldE f (x # xs) s = bindE (f x s) (foldE f xs)"

section \<open>Helpers of namespace detail\<close>

text \<open>An \<open>std::array<_, N>\<close> is a list of length \<open>N\<close>; indices are \<open>int32_t\<close> and sizes
  \<open>size_t\<close>, modelled as \<open>int\<close> and \<open>nat\<close> (no wrap-around).\<close>

definition linearSize :: "nat list \<Rightarrow> nat" where
  "linearSize a = foldl (*) 1 a"

definition squared :: "fl \<Rightarrow> fl" where
  "squared x = fmul x x"

definition inverseSquared :: "fl \<Rightarrow> fl" where
  "inverseSquared x = fdiv (Fin 1) (squared x)"

definition squaredMagnitude :: "fl list \<Rightarrow> fl" where
  "squaredMagnitude v = foldl (\<lambda>sm x. fadd sm (fmul x x)) (Fin 0) v"

definition inside :: "int list \<Rightarrow> nat list \<Rightarrow> bool" where
  "inside index sz = list_all2 (\<lambda>i s. 0 \<le> i \<and> nat i < s) index sz"

definition throwIfInvalidSize :: "nat list \<Rightarrow> error + unit" where
  "throwIfInvalidSize sz = (if list_ex (\<lambda>x. x < 1) sz then Inl InvalidSize else Inr ())"

definition throwIfInvalidSpacing :: "fl list \<Rightarrow> error + unit" where
  "throwIfInvalidSpacing dx =
     (if list_ex (\<lambda>x. fle x (Fin 0)) dx then Inl InvalidSpacing else Inr ())"

definition throwIfInvalidSpeed :: "fl \<Rightarrow> error + unit" where
  "throwIfInvalidSpeed speed = (if fle speed (Fin 0) then Inl InvalidSpeed else Inr ())"

definition throwIfSizeNotEqual :: "'a list \<Rightarrow> 'b list \<Rightarrow> error + unit" where
  "throwIfSizeNotEqual u v = (if length u \<noteq> length v then Inl SizeMismatch else Inr ())"

definition throwIfSizeNotEqual3 :: "'a list \<Rightarrow> 'b list \<Rightarrow> 'c list \<Rightarrow> error + unit" where
  "throwIfSizeNotEqual3 u v w =
     bindE (throwIfSizeNotEqual u v) (\<lambda>_. throwIfSizeNotEqual u w)"

definition throwIfInvalidIndex :: "int list list \<Rightarrow> nat list \<Rightarrow> error + unit" where
  "throwIfInvalidIndex indices sz =
     (if list_ex (\<lambda>index. \<not> inside index sz) indices then Inl InvalidIndex else Inr ())"

definition throwIfInvalidDistance :: "fl list \<Rightarrow> (fl \<Rightarrow> bool) \<Rightarrow> error + unit" where
  "throwIfInvalidDistance distances unary_pred =
     (if list_ex (\<lambda>distance. \<not> unary_pred distance) distances
      then Inl InvalidDistance else Inr ())"

definition throwIfInvalidNormal :: "fl list list \<Rightarrow> error + unit" where
  "throwIfInvalidNormal normals =
     (if list_ex (\<lambda>normal. fless (squaredMagnitude normal) (Fin (1 / 4))) normals
      then Inl InvalidNormal else Inr ())"

section \<open>Grid\<close>

text \<open>
  A \<open>Grid<T, N>\<close> is a view on a cell buffer. The model keeps the buffer in the record;
  the constructor computes the strides with the loop of the header
  (\<open>stride *= size_[i - 1]; strides_[i - 1] = stride\<close> for \<open>i = 1 .. N - 1\<close>).
  Isabelle does not accept a name that ends in an underscore, so the members
  \<open>size_\<close>, \<open>strides_\<close> and \<open>cells_\<close> are the fields \<open>g_size\<close>, \<open>g_strides\<close> and
  \<open>g_cells\<close>, and a private function \<open>f_\<close> of the header is \<open>f\<close> here.
\<close>

record 'a grid =
  g_size :: "nat list"
  g_strides :: "nat list"
  g_cells :: "'a list"

fun strides_loop :: "nat \<Rightarrow> nat list \<Rightarrow> nat list" where
  "strides_loop stride [] = []"
| "strides_loop stride (s # ss) = (stride * s) # strides_loop (stride * s) ss"

definition Grid :: "nat list \<Rightarrow> 'a list \<Rightarrow> 'a grid" where
  "Grid sz cells = \<lparr>g_size = sz, g_strides = strides_loop 1 (butlast sz), g_cells = cells\<rparr>"

text \<open>\<open>linearIndex\<close> asserts every component of the index to be inside before it uses
  it: \<open>k = index[0]; k += index[i] * g_strides[i - 1]\<close>.\<close>

definition linear_offset :: "'a grid \<Rightarrow> int list \<Rightarrow> nat" where
  "linear_offset g index =
     nat (hd index) + sum_list (map2 (\<lambda>x st. nat x * st) (tl index) (g_strides g))"

definition linearIndex :: "'a grid \<Rightarrow> int list \<Rightarrow> error + nat" where
  "linearIndex g index =
     (if \<not> inside index (g_size g) \<or> index = [] then Inl AssertionFailed
      else Inr (linear_offset g index))"

definition cell :: "'a grid \<Rightarrow> int list \<Rightarrow> error + 'a" where
  "cell g index =
     bindE (linearIndex g index)
       (\<lambda>k. if k < length (g_cells g) then Inr (g_cells g ! k) else Inl OutOfBounds)"

definition set_cell :: "'a grid \<Rightarrow> int list \<Rightarrow> 'a \<Rightarrow> error + 'a grid" where
  "set_cell g index v =
     bindE (linearIndex g index)
       (\<lambda>k. if k < length (g_cells g) then Inr (g\<lparr>g_cells := (g_cells g)[k := v]\<rparr>)
            else Inl OutOfBounds)"

section \<open>Neighborhood\<close>

definition unit_offset :: "nat \<Rightarrow> nat \<Rightarrow> int \<Rightarrow> int list" where
  "unit_offset N i v = map (\<lambda>j. if j = i then v else 0) [0..<N]"

definition offsets :: "nat \<Rightarrow> int list list" where
  "offsets N = concat (map (\<lambda>i. [unit_offset N i 1, unit_offset N i (- 1)]) [0..<N])"

definition add_offset :: "int list \<Rightarrow> int list \<Rightarrow> int list" where
  "add_offset index offset = map2 (+) index offset"

section \<open>EikonalSolver\<close>

datatype CellState = Far | NarrowBand | Frozen

record EikonalSolver_rec =
  inv_dx_squared :: "fl list"
  inv_speed_squared :: fl

definition EikonalSolver :: "fl list \<Rightarrow> fl \<Rightarrow> EikonalSolver_rec" where
  "EikonalSolver dx speed =
     \<lparr>inv_dx_squared = map inverseSquared dx, inv_speed_squared = inverseSquared speed\<rparr>"

text \<open>The coefficients are the triple \<open>(q[0], q[1], q[2]) = (c, b, a)\<close>; the result is
  the pair of roots.\<close>

definition solveQuadratic :: "fl \<times> fl \<times> fl \<Rightarrow> fl \<times> fl" where
  "solveQuadratic coefficients =
     (let eps = Fin (1 / 10 ^ 9);
          c = fst coefficients;
          b = fst (snd coefficients);
          a = snd (snd coefficients)
      in if fless (fabs a) eps then
           (if fless (fabs b) eps then (NaN, NaN)
            else (fdiv (fneg c) b, NaN))
         else if fless (fabs b) eps then
           (let r = fsqrt (fdiv (fneg c) a) in (r, fneg r))
         else
           (let discriminant_squared = fsub (fmul b b) (fmul (fmul (Fin 4) a) c)
            in if fle discriminant_squared eps then (NaN, NaN)
               else
                 (let discriminant = fsqrt discriminant_squared;
                      r0 = (if fless b (Fin 0)
                            then fdiv (fadd (fneg b) discriminant) (fmul (Fin 2) a)
                            else fdiv (fsub (fneg b) discriminant) (fmul (Fin 2) a));
                      r1 = fdiv c (fmul a r0)
                  in (std_max r0 r1, std_min r0 r1))))"

text \<open>The inner loop of \<open>solve\<close> over \<open>j = 0, 1\<close>: one step looks at the neighbor
  \<open>index + offset\<close> and lowers the running minimum when it is inside and frozen.\<close>

definition frozen_neighbor_step ::
  "fl grid \<Rightarrow> CellState grid \<Rightarrow> int list \<Rightarrow> int list \<Rightarrow> fl \<Rightarrow> error + fl" where
  "frozen_neighbor_step distance_grid state_grid index offset m =
     (let neighbor_index = add_offset index offset
      in if inside neighbor_index (g_size distance_grid) then
           bindE (cell state_grid neighbor_index)
             (\<lambda>st. if st = Frozen
                   then bindE (cell distance_grid neighbor_index) (\<lambda>d. Inr (std_min m d))
                   else Inr m)
         else Inr m)"

text \<open>The body of the outer loop of \<open>solve\<close> for axis \<open>i\<close>.\<close>

definition solve_axis ::
  "EikonalSolver_rec \<Rightarrow> int list \<Rightarrow> int list list \<Rightarrow> fl grid \<Rightarrow> CellState grid
     \<Rightarrow> nat \<Rightarrow> fl \<times> fl \<times> fl \<Rightarrow> error + fl \<times> fl \<times> fl" where
  "solve_axis es index neighbor_offsets distance_grid state_grid i q =
     bindE (frozen_neighbor_step distance_grid state_grid index
              (neighbor_offsets ! (2 * i + 0)) numeric_limits_max)
       (\<lambda>m0. bindE (frozen_neighbor_step distance_grid state_grid index
                      (neighbor_offsets ! (2 * i + 1)) m0)
         (\<lambda>min_frozen_neighbor_distance.
            if fless min_frozen_neighbor_distance numeric_limits_max then
              Inr (fadd (fst q)
                     (fmul (squared min_frozen_neighbor_distance) (inv_dx_squared es ! i)),
                   fadd (fst (snd q))
                     (fmul (fmul (Fin (- 2)) min_frozen_neighbor_distance)
                        (inv_dx_squared es ! i)),
                   fadd (snd (snd q)) (inv_dx_squared es ! i))
            else Inr q))"

text \<open>The coefficients \<open>q\<close> that \<open>solve\<close> hands to \<open>solveQuadratic\<close>.\<close>

definition solve_coefficients ::
  "EikonalSolver_rec \<Rightarrow> int list \<Rightarrow> int list list \<Rightarrow> fl grid \<Rightarrow> CellState grid
     \<Rightarrow> error + fl \<times> fl \<times> fl" where
  "solve_coefficients es index neighbor_offsets distance_grid state_grid =
     foldE (solve_axis es index neighbor_offsets distance_grid state_grid)
       [0..<length index] (fneg (inv_speed_squared es), Fin 0, Fin 0)"

definition solve ::
  "EikonalSolver_rec \<Rightarrow> int list \<Rightarrow> int list list \<Rightarrow> fl grid \<Rightarrow> CellState grid
     \<Rightarrow> error + fl" where
  "solve es index neighbor_offsets distance_grid state_grid =
     (if \<not> inside index (g_size distance_grid) then Inl AssertionFailed
      else bindE (solve_coefficients es index neighbor_offsets distance_grid state_grid)
        (\<lambda>q. let r = solveQuadratic q
             in if isnan (fst r) then Inl AssertionFailed
                else if \<not> fle (Fin 0) (fst r) then Inl AssertionFailed
                else Inr (fst r)))"

section \<open>NarrowBandStore\<close>

text \<open>
  The store is the vector \<open>values_\<close> of (distance, index) pairs and the
  \<open>unordered_map\<close> \<open>index_to_pos_\<close>, modelled as an association list with one entry
  per key (\<open>find\<close> is \<open>map_of\<close>, assignment through an iterator and \<open>insert\<close> of an
  absent key are \<open>AList.update\<close>, \<open>erase\<close> is \<open>AList.delete\<close>, \<open>size\<close> is the
  length). The member functions change the store in place and may throw, so each returns
  its outcome together with the store as the call leaves it.
\<close>

record NarrowBandStore_rec =
  nb_values :: "(fl \<times> int list) list"
  nb_index_to_pos :: "(int list \<times> nat) list"

definition NarrowBandStore :: NarrowBandStore_rec where
  "NarrowBandStore = \<lparr>nb_values = [], nb_index_to_pos = []\<rparr>"

definition nb_empty :: "NarrowBandStore_rec \<Rightarrow> error + bool" where
  "nb_empty h =
     (if (nb_values h = []) \<noteq> (nb_index_to_pos h = []) then Inl AssertionFailed
      else Inr (nb_values h = []))"

definition parent_pos :: "nat \<Rightarrow> error + nat" where
  "parent_pos child_pos =
     (if \<not> 0 < child_pos then Inl AssertionFailed else Inr ((child_pos - 1) div 2))"

definition left_child_pos :: "nat \<Rightarrow> nat" where
  "left_child_pos parent = 2 * parent + 1"

definition right_child_pos :: "nat \<Rightarrow> nat" where
  "right_child_pos parent = 2 * parent + 2"

definition swap_pos ::
  "nat \<Rightarrow> nat \<Rightarrow> NarrowBandStore_rec \<Rightarrow> (error + unit) \<times> NarrowBandStore_rec" where
  "swap_pos pos0 pos1 h =
     (if \<not> pos0 < length (nb_values h) then (Inl AssertionFailed, h)
      else if \<not> pos1 < length (nb_values h) then (Inl AssertionFailed, h)
      else
        (let k0 = snd (nb_values h ! pos0);
             k1 = snd (nb_values h ! pos1)
         in if map_of (nb_index_to_pos h) k0 = None then (Inl AssertionFailed, h)
            else if map_of (nb_index_to_pos h) k1 = None then (Inl AssertionFailed, h)
            else (Inr (),
                  \<lparr>nb_values = (nb_values h)[pos0 := nb_values h ! pos1, pos1 := nb_values h ! pos0],
                   nb_index_to_pos =
                     AList.update k1 pos0 (AList.update k0 pos1 (nb_index_to_pos h))\<rparr>)))"

lemma swap_pos_length:
  "swap_pos p0 p1 h = (r, h') \<Longrightarrow> length (nb_values h') = length (nb_values h)"
  by (auto simp: swap_pos_def Let_def split: if_splits)

function sift_up :: "nat \<Rightarrow> NarrowBandStore_rec \<Rightarrow> (error + unit) \<times> NarrowBandStore_rec" where
  "sift_up pos h =
     (if \<not> pos < length (nb_values h) then (Inl AssertionFailed, h)
      else if pos = 0 then (Inr (), h)
      else
        (case parent_pos pos of
           Inl e \<Rightarrow> (Inl e, h)
         | Inr pp \<Rightarrow>
             if \<not> pp < length (nb_values h) then (Inl AssertionFailed, h)
             else if fless (fst (nb_values h ! pos)) (fst (nb_values h ! pp)) then
               (case swap_pos pos pp h of
                  (Inl e, h') \<Rightarrow> (Inl e, h')
                | (Inr _, h') \<Rightarrow> sift_up pp h')
             else (Inr (), h)))"
  by pat_completeness auto
termination
  by (relation "measure (\<lambda>(pos, h). pos)") (auto simp: parent_pos_def split: if_splits)

function sift_down :: "nat \<Rightarrow> NarrowBandStore_rec \<Rightarrow> (error + unit) \<times> NarrowBandStore_rec" where
  "sift_down pos h =
     (if \<not> pos < length (nb_values h) then (Inl AssertionFailed, h)
      else
        (let left_pos = left_child_pos pos;
             right_pos = right_child_pos pos;
             max_pos = length (nb_values h) - 1
         in if \<not> left_pos < right_pos then (Inl AssertionFailed, h)
            else if left_pos > max_pos then (Inr (), h)
            else
              (let min_pos0 = pos;
                   min_value0 = fst (nb_values h ! min_pos0);
                   left_value = fst (nb_values h ! left_pos);
                   min_pos1 = (if fless left_value min_value0 then left_pos else min_pos0);
                   min_value1 = (if fless left_value min_value0
                                 then fst (nb_values h ! left_pos) else min_value0);
                   min_pos = (if right_pos \<le> max_pos
                                \<and> fless (fst (nb_values h ! right_pos)) min_value1
                              then right_pos else min_pos1)
               in if min_pos \<noteq> pos then
                    (case swap_pos min_pos pos h of
                       (Inl e, h') \<Rightarrow> (Inl e, h')
                     | (Inr _, h') \<Rightarrow> sift_down min_pos h')
                  else (Inr (), h))))"
  by pat_completeness auto
termination
  apply (relation "measure (\<lambda>(pos, h). length (nb_values h) - pos)")
   apply (auto simp: left_child_pos_def right_child_pos_def
      dest!: swap_pos_length[OF sym] split: if_splits)
  done

definition pop ::
  "NarrowBandStore_rec \<Rightarrow> (error + fl \<times> int list) \<times> NarrowBandStore_rec" where
  "pop h =
     (case nb_empty h of
        Inl e \<Rightarrow> (Inl e, h)
      | Inr True \<Rightarrow> (Inl CannotPopEmpty, h)
      | Inr False \<Rightarrow>
          (let v = hd (nb_values h)
           in case swap_pos 0 (length (nb_values h) - 1) h of
                (Inl e, h1) \<Rightarrow> (Inl e, h1)
              | (Inr _, h1) \<Rightarrow>
                  (let h2 = \<lparr>nb_values = butlast (nb_values h1),
                             nb_index_to_pos = AList.delete (snd v) (nb_index_to_pos h1)\<rparr>
                   in if length (nb_values h2) \<noteq> length (nb_index_to_pos h2)
                      then (Inl AssertionFailed, h2)
                      else
                        (case nb_empty h2 of
                           Inl e \<Rightarrow> (Inl e, h2)
                         | Inr True \<Rightarrow> (Inr v, h2)
                         | Inr False \<Rightarrow>
                             (case sift_down 0 h2 of
                                (Inl e, h3) \<Rightarrow> (Inl e, h3)
                              | (Inr _, h3) \<Rightarrow> (Inr v, h3))))))"

definition insert_value ::
  "fl \<times> int list \<Rightarrow> NarrowBandStore_rec \<Rightarrow> (error + unit) \<times> NarrowBandStore_rec" where
  "insert_value v h =
     (if map_of (nb_index_to_pos h) (snd v) \<noteq> None then (Inl IndexMustBeUnique, h)
      else
        (let pos = length (nb_values h)
         in sift_up pos
              \<lparr>nb_values = nb_values h @ [v],
               nb_index_to_pos = AList.update (snd v) pos (nb_index_to_pos h)\<rparr>))"

definition increase_distance ::
  "int list \<Rightarrow> fl \<Rightarrow> NarrowBandStore_rec \<Rightarrow> (error + unit) \<times> NarrowBandStore_rec" where
  "increase_distance index new_distance h =
     (case map_of (nb_index_to_pos h) index of
        None \<Rightarrow> (Inl IndexNotFound, h)
      | Some pos \<Rightarrow>
          if \<not> pos < length (nb_values h) then (Inl OutOfBounds, h)
          else if fle new_distance (fst (nb_values h ! pos))
          then (Inl NewDistanceMustBeGreater, h)
          else sift_down pos
                 (h\<lparr>nb_values := (nb_values h)[pos := (new_distance, snd (nb_values h ! pos))]\<rparr>))"

definition decrease_distance ::
  "int list \<Rightarrow> fl \<Rightarrow> NarrowBandStore_rec \<Rightarrow> (error + unit) \<times> NarrowBandStore_rec" where
  "decrease_distance index new_distance h =
     (case map_of (nb_index_to_pos h) index of
        None \<Rightarrow> (Inl IndexNotFound, h)
      | Some pos \<Rightarrow>
          if \<not> pos < length (nb_values h) then (Inl OutOfBounds, h)
          else if fle (fst (nb_values h ! pos)) new_distance
          then (Inl NewDistanceMustBeLess, h)
          else sift_up pos
                 (h\<lparr>nb_values := (nb_values h)[pos := (new_distance, snd (nb_values h ! pos))]\<rparr>))"

declare sift_up.simps [simp del] sift_down.simps [simp del]

section \<open>Basic facts\<close>

lemma bindE_simps [simp]:
  "bindE (Inl e) f = Inl e"
  "bindE (Inr x) f = f x"
  by (simp_all add: bindE_def)

lemma bindE_eq_Inr:
  "bindE m f = Inr y \<longleftrightarrow> (\<exists>x. m = Inr x \<and> f x = Inr y)"
  by (cases m) simp_all

lemma bindE_eq_Inl:
  "bindE m f = Inl e \<longleftrightarrow> m = Inl e \<or> (\<exists>x. m = Inr x \<and> f x = Inl e)"
  by (cases m) simp_all

lemma fl_nan_simps [simp]:
  "fadd x NaN = NaN" "fadd NaN x = NaN" "fmul x NaN = NaN" "fmul NaN x = NaN"
  "fdiv x NaN = NaN" "fdiv NaN x = NaN" "fless x NaN = False" "fless NaN x = False"
  "fle x NaN = False" "fle NaN x = False"
  by (cases x; simp)+

lemma fabs_eq_NaN [simp]: "fabs x = NaN \<longleftrightarrow> x = NaN"
  by (cases x) simp_all

lemma fneg_eq_NaN [simp]: "fneg x = NaN \<longleftrightarrow> x = NaN"
  by (cases x) simp_all

lemma fle_iff_not_fless: "x \<noteq> NaN \<Longrightarrow> y \<noteq> NaN \<Longrightarrow> fle y x \<longleftrightarrow> \<not> fless x y"
  by (cases x; cases y) auto

lemma std_max_NaN [simp]: "std_max NaN NaN = NaN"
  by (simp add: std_max_def)


lemma fless_trans: "fless a b \<Longrightarrow> fless b c \<Longrightarrow> fless a c"
  by (cases a; cases b; cases c) auto

lemma fless_irrefl [simp]: "\<not> fless a a"
  by (cases a) auto

lemma foldE_total:
  "(\<And>x s. x \<in> set xs \<Longrightarrow> f x s = Inr (g x s)) \<Longrightarrow> foldE f xs s = Inr (fold g xs s)"
  by (induction xs arbitrary: s) simp_all

lemma flt_max_gt: "1000 < flt_max"
  by (simp add: flt_max_def)

section \<open>The linear index\<close>

text \<open>\<open>mixed\<close> is the row-major index in Horner form; \<open>grid_ok\<close> says that a grid was
  built by the constructor on a buffer of \<open>linearSize\<close> cells, as every grid of the
  drivers is.\<close>


fun mixed :: "int list \<Rightarrow> nat list \<Rightarrow> nat" where
  "mixed (x # xs) (s # ss) = nat x + s * mixed xs ss"
| "mixed _ _ = 0"

definition grid_ok :: "'a grid \<Rightarrow> bool" where
  "grid_ok g \<longleftrightarrow> g_strides g = strides_loop 1 (butlast (g_size g))
     \<and> length (g_cells g) = linearSize (g_size g)"

lemma foldl_mult_prod: "foldl (*) (a::nat) xs = a * prod_list xs"
  by (induction xs arbitrary: a) (simp_all add: mult.assoc)

lemma linearSize_prod: "linearSize sz = prod_list sz"
  by (simp add: linearSize_def foldl_mult_prod)

lemma strides_sum:
  "length xs = length ss \<Longrightarrow>
   sum_list (map2 (\<lambda>x st. nat x * st) xs (strides_loop stride (butlast (s # ss))))
     = stride * s * mixed xs ss"
proof (induction xs ss arbitrary: stride s rule: list_induct2)
  case Nil
  then show ?case by simp
next
  case (Cons x xs s' ss)
  then show ?case by (simp add: algebra_simps)
qed

lemma linear_offset_mixed:
  assumes "length index = length (g_size g)" "index \<noteq> []"
    "g_strides g = strides_loop 1 (butlast (g_size g))"
  shows "linear_offset g index = mixed index (g_size g)"
proof -
  obtain x xs where i: "index = x # xs" using assms(2) by (cases index) auto
  then obtain s ss where s: "g_size g = s # ss" using assms(1) by (cases "g_size g") auto
  have "length xs = length ss" using assms(1) i s by simp
  from strides_sum[OF this, of 1 s] show ?thesis
    by (simp add: linear_offset_def i s assms(3))
qed

lemma inside_length: "inside index sz \<Longrightarrow> length index = length sz"
  by (simp add: inside_def list_all2_lengthD)

lemma mixed_lt: "inside index sz \<Longrightarrow> mixed index sz < prod_list sz"
  unfolding inside_def
proof (induction index sz rule: list_all2_induct)
  case Nil
  then show ?case by simp
next
  case (Cons x xs s ss)
  have "nat x + s * mixed xs ss < s + s * mixed xs ss" using Cons by simp
  also have "\<dots> = s * Suc (mixed xs ss)" by simp
  also have "\<dots> \<le> s * prod_list ss" using Cons by (intro mult_le_mono2) simp
  finally show ?case by simp
qed

lemma mixed_inj:
  "inside i1 sz \<Longrightarrow> inside i2 sz \<Longrightarrow> mixed i1 sz = mixed i2 sz \<Longrightarrow> i1 = i2"
  unfolding inside_def
proof (induction i1 sz arbitrary: i2 rule: list_all2_induct)
  case Nil
  then show ?case by simp
next
  case (Cons x xs s ss)
  from Cons.prems(1) obtain y ys where i2: "i2 = y # ys" "0 \<le> y" "nat y < s"
    "list_all2 (\<lambda>i s. 0 \<le> i \<and> nat i < s) ys ss"
    by (auto simp: list_all2_Cons2)
  have eq: "nat x + s * mixed xs ss = nat y + s * mixed ys ss"
    using Cons.prems(2) i2 by simp
  have "(nat x + s * mixed xs ss) mod s = nat x" "(nat y + s * mixed ys ss) mod s = nat y"
    using Cons.hyps i2 by simp_all
  with eq have xy: "nat x = nat y" by metis
  then have "x = y" using Cons.hyps i2 by simp
  moreover have "mixed xs ss = mixed ys ss" using eq xy Cons.hyps by simp
  ultimately show ?case using Cons.IH[OF i2(4)] i2 by simp
qed

lemma cell_inside:
  assumes "grid_ok g" "inside index (g_size g)" "index \<noteq> []"
  shows "cell g index = Inr (g_cells g ! linear_offset g index)"
    and "linear_offset g index < length (g_cells g)"
proof -
  have "linear_offset g index = mixed index (g_size g)"
    using assms by (intro linear_offset_mixed) (auto simp: grid_ok_def inside_length)
  then show lt: "linear_offset g index < length (g_cells g)"
    using mixed_lt[OF assms(2)] assms(1) by (simp add: grid_ok_def linearSize_prod)
  then show "cell g index = Inr (g_cells g ! linear_offset g index)"
    using assms by (simp add: cell_def linearIndex_def)
qed

lemma concat_pairs_nth:
  "i < length xs \<Longrightarrow> concat (map (\<lambda>i. [f i, g i]) xs) ! (2 * i) = f (xs ! i)
     \<and> concat (map (\<lambda>i. [f i, g i]) xs) ! (2 * i + 1) = g (xs ! i)"
proof (induction xs arbitrary: i)
  case Nil
  then show ?case by simp
next
  case (Cons a xs)
  then show ?case by (cases i) simp_all
qed

lemma offsets_nth:
  assumes "i < N"
  shows "offsets N ! (2 * i) = unit_offset N i 1" "offsets N ! (2 * i + 1) = unit_offset N i (- 1)"
  using concat_pairs_nth[of i "[0..<N]" "\<lambda>i. unit_offset N i 1" "\<lambda>i. unit_offset N i (- 1)"] assms
  by (simp_all add: offsets_def)

lemma add_unit_offset:
  "length index = N \<Longrightarrow> add_offset index (unit_offset N i v) = index[i := index ! i + v]"
  by (rule nth_equalityI) (auto simp: add_offset_def unit_offset_def nth_list_update)

section \<open>Front initialisation and marching\<close>

text \<open>
  The functions below work on the two grids and the narrow band their pointer arguments
  refer to; the model passes the triple and returns it updated. An exception or a failed
  assertion ends the driver, so a failure carries no state.
\<close>

type_synonym sweep = "fl grid \<times> CellState grid \<times> NarrowBandStore_rec"

definition initializeFrozenCells ::
  "int list list \<Rightarrow> fl list \<Rightarrow> fl \<Rightarrow> fl grid \<times> CellState grid
     \<Rightarrow> error + fl grid \<times> CellState grid" where
  "initializeFrozenCells frozen_indices frozen_distances multiplier gs =
     (if length frozen_indices \<noteq> length frozen_distances then Inl AssertionFailed
      else foldE
        (\<lambda>(index, distance) (distance_grid, state_grid).
           if \<not> inside index (g_size distance_grid) then Inl AssertionFailed
           else if \<not> inside index (g_size state_grid) then Inl AssertionFailed
           else bindE (set_cell distance_grid index (fmul multiplier distance))
             (\<lambda>distance_grid'. bindE (set_cell state_grid index Frozen)
               (\<lambda>state_grid'. Inr (distance_grid', state_grid'))))
        (zip frozen_indices frozen_distances) gs)"

text \<open>The body of the loop of \<open>updateNeighbors\<close> for one offset.\<close>

definition update_neighbor ::
  "EikonalSolver_rec \<Rightarrow> int list \<Rightarrow> int list list \<Rightarrow> fl list
     \<Rightarrow> (fl list \<Rightarrow> int list \<Rightarrow> bool) \<Rightarrow> int list \<Rightarrow> sweep \<Rightarrow> error + sweep" where
  "update_neighbor eikonal_solver index neighbor_offsets normal neighbor_pred neighbor_offset s =
     (case s of (distance_grid, state_grid, narrow_band) \<Rightarrow>
        if neighbor_pred normal neighbor_offset then
          (let neighbor_index = add_offset index neighbor_offset
           in if inside neighbor_index (g_size distance_grid) then
                bindE (cell state_grid neighbor_index)
                  (\<lambda>neighbor_state.
                     case neighbor_state of
                       Far \<Rightarrow>
                         bindE (solve eikonal_solver neighbor_index neighbor_offsets
                                  distance_grid state_grid)
                           (\<lambda>distance.
                              bindE (set_cell distance_grid neighbor_index distance)
                                (\<lambda>distance_grid'.
                                   bindE (set_cell state_grid neighbor_index NarrowBand)
                                     (\<lambda>state_grid'.
                                        case insert_value (distance, neighbor_index) narrow_band of
                                          (Inl e, _) \<Rightarrow> Inl e
                                        | (Inr _, narrow_band') \<Rightarrow>
                                            Inr (distance_grid', state_grid', narrow_band'))))
                     | NarrowBand \<Rightarrow>
                         bindE (cell distance_grid neighbor_index)
                           (\<lambda>neighbor_distance.
                              bindE (solve eikonal_solver neighbor_index neighbor_offsets
                                       distance_grid state_grid)
                                (\<lambda>new_neighbor_distance.
                                   if fless new_neighbor_distance neighbor_distance then
                                     (case decrease_distance neighbor_index
                                             new_neighbor_distance narrow_band of
                                        (Inl e, _) \<Rightarrow> Inl e
                                      | (Inr _, narrow_band') \<Rightarrow>
                                          bindE (set_cell distance_grid neighbor_index
                                                   new_neighbor_distance)
                                            (\<lambda>distance_grid'.
                                               Inr (distance_grid', state_grid, narrow_band')))
                                   else Inr s))
                     | Frozen \<Rightarrow> Inr s)
              else Inr s)
        else Inr s)"

definition updateNeighbors ::
  "EikonalSolver_rec \<Rightarrow> int list \<Rightarrow> int list list \<Rightarrow> fl list
     \<Rightarrow> (fl list \<Rightarrow> int list \<Rightarrow> bool) \<Rightarrow> sweep \<Rightarrow> error + sweep" where
  "updateNeighbors eikonal_solver index neighbor_offsets normal neighbor_pred s =
     (case s of (distance_grid, state_grid, narrow_band) \<Rightarrow>
        if \<not> inside index (g_size distance_grid) then Inl AssertionFailed
        else if \<not> inside index (g_size state_grid) then Inl AssertionFailed
        else bindE (cell state_grid index)
          (\<lambda>st. if st \<noteq> Frozen then Inl AssertionFailed
                else foldE (update_neighbor eikonal_solver index neighbor_offsets normal
                              neighbor_pred) neighbor_offsets s))"

text \<open>\<open>normals[i]\<close> is read for every \<open>i < frozen_indices.size()\<close> without a range
  check; the drivers have checked that the two vectors have the same length.\<close>

definition initializeNarrowBand ::
  "EikonalSolver_rec \<Rightarrow> int list list \<Rightarrow> int list list \<Rightarrow> fl list list
     \<Rightarrow> (fl list \<Rightarrow> int list \<Rightarrow> bool) \<Rightarrow> fl grid \<times> CellState grid \<Rightarrow> error + sweep" where
  "initializeNarrowBand eikonal_solver frozen_indices neighbor_offsets normals pred gs =
     (if length normals < length frozen_indices then Inl OutOfBounds
      else bindE
        (foldE (\<lambda>(index, normal). updateNeighbors eikonal_solver index neighbor_offsets
                                     normal pred)
           (zip frozen_indices normals) (fst gs, snd gs, NarrowBandStore))
        (\<lambda>s. bindE (nb_empty (snd (snd s)))
               (\<lambda>e. if e then Inl NarrowBandEmpty else Inr s)))"

text \<open>One iteration of the loop of \<open>marchNarrowBand\<close>: \<open>None\<close> when the narrow band
  is empty and the loop ends, otherwise the value popped and the state after the
  iteration.\<close>

definition march_step ::
  "EikonalSolver_rec \<Rightarrow> int list list \<Rightarrow> sweep \<Rightarrow> error + ((fl \<times> int list) \<times> sweep) option" where
  "march_step eikonal_solver neighbor_offsets s =
     (case s of (distance_grid, state_grid, narrow_band) \<Rightarrow>
        bindE (nb_empty narrow_band)
          (\<lambda>e. if e then Inr None
               else
                 (case pop narrow_band of
                    (Inl err, _) \<Rightarrow> Inl err
                  | (Inr v, narrow_band') \<Rightarrow>
                      bindE (cell state_grid (snd v))
                        (\<lambda>st. if st \<noteq> NarrowBand then Inl AssertionFailed
                              else bindE (set_cell distance_grid (snd v) (fst v))
                                (\<lambda>distance_grid'.
                                   bindE (set_cell state_grid (snd v) Frozen)
                                     (\<lambda>state_grid'.
                                        bindE (updateNeighbors eikonal_solver (snd v)
                                                 neighbor_offsets
                                                 (replicate (length (snd v)) NaN)
                                                 (\<lambda>_ _. True)
                                                 (distance_grid', state_grid', narrow_band'))
                                          (\<lambda>s'. Inr (Some (v, s')))))))))"

definition sweep_measure :: "sweep \<Rightarrow> nat" where
  "sweep_measure s =
     length (nb_values (snd (snd s))) + 2 * length (filter (\<lambda>c. c = Far) (g_cells (fst (snd s))))"

subsection \<open>The marching loop terminates\<close>

text \<open>Every iteration pops one entry, and an entry is inserted only for a cell that
  leaves the state \<open>Far\<close>: the size of the heap plus twice the number of \<open>Far\<close> cells
  decreases.\<close>

lemma sift_up_length_snd:
  "length (nb_values (snd (sift_up pos h))) = length (nb_values h)"
proof (induction pos h rule: sift_up.induct)
  case (1 pos h)
  let ?pp = "(pos - 1) div 2"
  show ?case
  proof (cases "pos < length (nb_values h) \<and> pos \<noteq> 0")
    case False
    then show ?thesis by (subst sift_up.simps) auto
  next
    case True
    have pp: "parent_pos pos = Inr ?pp" using True by (simp add: parent_pos_def)
    show ?thesis
    proof (cases "?pp < length (nb_values h)
        \<and> fless (fst (nb_values h ! pos)) (fst (nb_values h ! ?pp))")
      case False
      then show ?thesis using True pp by (subst sift_up.simps) auto
    next
      case T2: True
      obtain r h1 where sw: "swap_pos pos ?pp h = (r, h1)"
        by (cases "swap_pos pos ?pp h") auto
      have l1: "length (nb_values h1) = length (nb_values h)" using swap_pos_length[OF sw] .
      show ?thesis
      proof (cases r)
        case (Inl e)
        then show ?thesis using True pp T2 sw l1 by (subst sift_up.simps) simp
      next
        case (Inr u)
        have "sift_up pos h = sift_up ?pp h1"
          using True pp T2 sw Inr by (subst sift_up.simps) simp
        moreover have "length (nb_values (snd (sift_up ?pp h1))) = length (nb_values h1)"
          using "1.IH"[OF _ _ pp _ _ sw[symmetric] Inr] True T2 by simp
        ultimately show ?thesis using l1 by simp
      qed
    qed
  qed
qed

lemma sift_up_length:
  "sift_up pos h = (r, h') \<Longrightarrow> length (nb_values h') = length (nb_values h)"
  using sift_up_length_snd[of pos h] by simp

lemma sift_down_length_snd:
  "length (nb_values (snd (sift_down pos h))) = length (nb_values h)"
proof (induction pos h rule: sift_down.induct)
  case (1 pos h)
  let ?vs = "nb_values h"
  let ?d = "\<lambda>p. fst (?vs ! p)"
  let ?L = "left_child_pos pos" and ?R = "right_child_pos pos"
  define m where "m = (if ?R \<le> length ?vs - 1
        \<and> fless (?d ?R) (if fless (?d ?L) (?d pos) then ?d ?L else ?d pos)
      then ?R else if fless (?d ?L) (?d pos) then ?L else pos)"
  have lr: "?L < ?R" by (simp add: left_child_pos_def right_child_pos_def)
  show ?case
  proof (cases "pos < length ?vs \<and> \<not> ?L > length ?vs - 1")
    case False
    then show ?thesis using lr by (subst sift_down.simps) (auto simp: Let_def)
  next
    case True
    have eq: "sift_down pos h =
        (if m \<noteq> pos then
           (case swap_pos m pos h of (Inl e, h') \<Rightarrow> (Inl e, h') | (Inr _, h') \<Rightarrow> sift_down m h')
         else (Inr (), h))"
      unfolding m_def using True lr
      by (subst sift_down.simps) (simp only: Let_def simp_thms if_True if_False)
    show ?thesis
    proof (cases "m = pos")
      case True
      then show ?thesis using eq by simp
    next
      case False
      obtain r h1 where sw: "swap_pos m pos h = (r, h1)"
        by (cases "swap_pos m pos h") auto
      have l1: "length (nb_values h1) = length (nb_values h)" using swap_pos_length[OF sw] .
      show ?thesis
      proof (cases r)
        case (Inl e)
        then show ?thesis using eq False sw l1 by simp
      next
        case (Inr u)
        note IH = "1.IH"[OF _ refl refl refl _ _ refl refl refl refl refl refl _
          sw[symmetric, unfolded m_def] Inr, folded m_def]
        have "length (nb_values (snd (sift_down m h1))) = length (nb_values h1)"
          using IH True lr False by simp
        then show ?thesis using eq False sw Inr l1 by simp
      qed
    qed
  qed
qed

lemma sift_down_length:
  "sift_down pos h = (r, h') \<Longrightarrow> length (nb_values h') = length (nb_values h)"
  using sift_down_length_snd[of pos h] by simp

lemma insert_value_length:
  "insert_value v h = (Inr u, h') \<Longrightarrow> length (nb_values h') = Suc (length (nb_values h))"
  by (auto simp: insert_value_def Let_def dest!: sift_up_length split: if_splits)

lemma decrease_distance_length:
  "decrease_distance index d h = (Inr u, h') \<Longrightarrow> length (nb_values h') = length (nb_values h)"
  by (auto simp: decrease_distance_def dest!: sift_up_length split: if_splits option.splits)

lemma pop_length:
  assumes "pop h = (Inr v, h')"
  shows "Suc (length (nb_values h')) = length (nb_values h)"
proof -
  have ne: "nb_values h \<noteq> []"
    using assms by (auto simp: pop_def nb_empty_def split: if_splits)
  then have e: "nb_empty h = Inr False"
    using assms by (auto simp: pop_def nb_empty_def split: if_splits)
  obtain r h1 where sw: "swap_pos 0 (length (nb_values h) - 1) h = (r, h1)"
    by (cases "swap_pos 0 (length (nb_values h) - 1) h") auto
  have l1: "length (nb_values h1) = length (nb_values h)" using swap_pos_length[OF sw] .
  define h2 where "h2 = \<lparr>nb_values = butlast (nb_values h1),
      nb_index_to_pos = AList.delete (snd (hd (nb_values h))) (nb_index_to_pos h1)\<rparr>"
  have l2: "Suc (length (nb_values h2)) = length (nb_values h)"
    using l1 ne by (simp add: h2_def)
  have "h' = h2 \<or> (\<exists>r. sift_down 0 h2 = (r, h'))"
    using assms e sw unfolding pop_def Let_def
    by (auto simp: h2_def split: if_splits sum.splits prod.splits bool.splits)
  then show ?thesis using l2 sift_down_length by auto
qed

lemma set_cell_Inr:
  "set_cell g index v = Inr g' \<longleftrightarrow>
     inside index (g_size g) \<and> index \<noteq> [] \<and> linear_offset g index < length (g_cells g)
     \<and> g' = g\<lparr>g_cells := (g_cells g)[linear_offset g index := v]\<rparr>"
  by (auto simp: set_cell_def linearIndex_def bindE_eq_Inr split: if_splits)

lemma cell_Inr:
  "cell g index = Inr v \<longleftrightarrow>
     inside index (g_size g) \<and> index \<noteq> [] \<and> linear_offset g index < length (g_cells g)
     \<and> v = g_cells g ! linear_offset g index"
  by (auto simp: cell_def linearIndex_def bindE_eq_Inr split: if_splits)

lemma filter_update_le:
  "\<not> P v \<Longrightarrow> length (filter P (xs[k := v])) \<le> length (filter P xs)"
proof (induction xs arbitrary: k)
  case Nil
  then show ?case by simp
next
  case (Cons x xs)
  then show ?case by (cases k) (auto simp: le_SucI)
qed

lemma filter_update_less:
  "\<not> P v \<Longrightarrow> k < length xs \<Longrightarrow> P (xs ! k)
     \<Longrightarrow> Suc (length (filter P (xs[k := v]))) = length (filter P xs)"
proof (induction xs arbitrary: k)
  case Nil
  then show ?case by simp
next
  case (Cons x xs)
  then show ?case by (cases k) auto
qed

lemma case_outcome_Inr:
  "(case p of (Inl e, y) \<Rightarrow> Inl e | (Inr u, y) \<Rightarrow> f u y) = Inr r
     \<longleftrightarrow> (\<exists>u y. p = (Inr u, y) \<and> f u y = Inr r)"
  by (cases p; cases "fst p") auto

lemma update_neighbor_measure:
  assumes "update_neighbor es index offs normal pred offset s = Inr s'"
  shows "sweep_measure s' \<le> sweep_measure s"
proof -
  obtain dg sg nb where s: "s = (dg, sg, nb)" by (cases s) auto
  let ?n = "add_offset index offset"
  show ?thesis
  proof (cases "pred normal offset \<and> inside ?n (g_size dg)")
    case False
    then show ?thesis using assms unfolding update_neighbor_def s Let_def
      by (auto split: if_splits)
  next
    case True
    then obtain st where st: "cell sg ?n = Inr st"
      using assms unfolding update_neighbor_def s Let_def by (auto simp: bindE_eq_Inr)
    show ?thesis
    proof (cases st)
      case Far
      then obtain d dg' sg' u nb' where
        "set_cell sg ?n NarrowBand = Inr sg'" "insert_value (d, ?n) nb = (Inr u, nb')"
        "s' = (dg', sg', nb')"
        using assms True st unfolding update_neighbor_def s Let_def
        by (auto simp: bindE_eq_Inr case_outcome_Inr)
      then show ?thesis
        using st Far insert_value_length[of "(d, ?n)" nb u nb']
          filter_update_less[of "\<lambda>c. c = Far" NarrowBand "linear_offset sg ?n" "g_cells sg"]
        by (auto simp: sweep_measure_def s set_cell_Inr cell_Inr)
    next
      case NarrowBand
      then have "s' = s \<or> (\<exists>d dg' u nb'. decrease_distance ?n d nb = (Inr u, nb')
          \<and> s' = (dg', sg, nb'))"
        using assms True st unfolding update_neighbor_def s Let_def
        by (auto simp: bindE_eq_Inr case_outcome_Inr split: if_splits)
      then show ?thesis
        using decrease_distance_length by (auto simp: sweep_measure_def s)
    next
      case Frozen
      then show ?thesis
        using assms True st unfolding update_neighbor_def s Let_def by simp
    qed
  qed
qed

lemma foldE_measure:
  assumes "\<And>x s s'. f x s = Inr s' \<Longrightarrow> m s' \<le> (m s :: nat)"
  shows "foldE f xs s = Inr s' \<Longrightarrow> m s' \<le> m s"
proof (induction xs arbitrary: s)
  case Nil
  then show ?case by simp
next
  case (Cons x xs)
  then obtain s1 where "f x s = Inr s1" "foldE f xs s1 = Inr s'"
    by (auto simp: bindE_eq_Inr)
  then show ?case using assms[of x s s1] Cons.IH[of s1] by simp
qed

lemma updateNeighbors_measure:
  assumes "updateNeighbors es index offs normal pred s = Inr s'"
  shows "sweep_measure s' \<le> sweep_measure s"
proof -
  obtain dg sg nb where s: "s = (dg, sg, nb)" by (cases s) auto
  from assms have "foldE (update_neighbor es index offs normal pred) offs s = Inr s'"
    unfolding updateNeighbors_def s by (auto simp: bindE_eq_Inr split: if_splits)
  then show ?thesis by (rule foldE_measure[rotated]) (rule update_neighbor_measure)
qed

lemma march_step_SomeE:
  assumes "march_step es offs (dg, sg, nb) = Inr (Some (v, s'))"
  obtains nb' dg' sg' where "nb_empty nb = Inr False" "pop nb = (Inr v, nb')"
    "cell sg (snd v) = Inr NarrowBand" "set_cell dg (snd v) (fst v) = Inr dg'"
    "set_cell sg (snd v) Frozen = Inr sg'"
    "updateNeighbors es (snd v) offs (replicate (length (snd v)) NaN) (\<lambda>_ _. True)
       (dg', sg', nb') = Inr s'"
proof -
  from assms obtain e where e: "nb_empty nb = Inr e"
    by (cases "nb_empty nb") (simp_all add: march_step_def)
  have ne: "\<not> e" using assms e by (cases e) (simp_all add: march_step_def)
  obtain r nb' where p: "pop nb = (r, nb')" by (cases "pop nb") auto
  from assms e ne p obtain w where r: "r = Inr w"
    by (cases r) (simp_all add: march_step_def)
  have a: "bindE (cell sg (snd w))
      (\<lambda>st. if st \<noteq> NarrowBand then Inl AssertionFailed
            else bindE (set_cell dg (snd w) (fst w))
              (\<lambda>dg'. bindE (set_cell sg (snd w) Frozen)
                (\<lambda>sg'. bindE (updateNeighbors es (snd w) offs (replicate (length (snd w)) NaN)
                                 (\<lambda>_ _. True) (dg', sg', nb'))
                          (\<lambda>s'. Inr (Some (w, s')))))) = Inr (Some (v, s'))"
    using assms e ne p r by (simp add: march_step_def)
  from a obtain st where st: "cell sg (snd w) = Inr st"
    by (cases "cell sg (snd w)") simp_all
  have nbnd: "st = NarrowBand" using a st by (cases "st = NarrowBand") simp_all
  have b: "bindE (set_cell dg (snd w) (fst w))
              (\<lambda>dg'. bindE (set_cell sg (snd w) Frozen)
                (\<lambda>sg'. bindE (updateNeighbors es (snd w) offs (replicate (length (snd w)) NaN)
                                 (\<lambda>_ _. True) (dg', sg', nb'))
                          (\<lambda>s'. Inr (Some (w, s'))))) = Inr (Some (v, s'))"
    using a st nbnd by simp
  from b obtain dg' where dg': "set_cell dg (snd w) (fst w) = Inr dg'"
    by (cases "set_cell dg (snd w) (fst w)") simp_all
  have c: "bindE (set_cell sg (snd w) Frozen)
                (\<lambda>sg'. bindE (updateNeighbors es (snd w) offs (replicate (length (snd w)) NaN)
                                 (\<lambda>_ _. True) (dg', sg', nb'))
                          (\<lambda>s'. Inr (Some (w, s')))) = Inr (Some (v, s'))"
    using b dg' by simp
  from c obtain sg' where sg': "set_cell sg (snd w) Frozen = Inr sg'"
    by (cases "set_cell sg (snd w) Frozen") simp_all
  have d: "bindE (updateNeighbors es (snd w) offs (replicate (length (snd w)) NaN)
                                 (\<lambda>_ _. True) (dg', sg', nb'))
                          (\<lambda>s'. Inr (Some (w, s'))) = Inr (Some (v, s'))"
    using c sg' by simp
  from d obtain s1 where u: "updateNeighbors es (snd w) offs (replicate (length (snd w)) NaN)
      (\<lambda>_ _. True) (dg', sg', nb') = Inr s1"
    by (cases "updateNeighbors es (snd w) offs (replicate (length (snd w)) NaN)
      (\<lambda>_ _. True) (dg', sg', nb')") simp_all
  have "w = v" "s1 = s'" using d u by simp_all
  then show ?thesis using that[of nb' dg' sg'] e ne p r st nbnd dg' sg' u by simp
qed

lemma march_step_measure:
  assumes "march_step es offs s = Inr (Some (v, s'))"
  shows "sweep_measure s' < sweep_measure s"
proof -
  obtain dg sg nb where s: "s = (dg, sg, nb)" by (cases s) auto
  from assms[unfolded s] obtain nb' dg' sg' where
    p: "pop nb = (Inr v, nb')" and
    sg': "set_cell sg (snd v) Frozen = Inr sg'" and
    u: "updateNeighbors es (snd v) offs (replicate (length (snd v)) NaN) (\<lambda>_ _. True)
          (dg', sg', nb') = Inr s'"
    by (rule march_step_SomeE)
  have f: "length (filter (\<lambda>c. c = Far) (g_cells sg'))
             \<le> length (filter (\<lambda>c. c = Far) (g_cells sg))"
    using sg' filter_update_le[of "\<lambda>c. c = Far" Frozen "g_cells sg" "linear_offset sg (snd v)"]
    by (simp add: set_cell_Inr)
  have "sweep_measure (dg', sg', nb') < sweep_measure (dg, sg, nb)"
    using pop_length[OF p] f by (simp add: sweep_measure_def)
  with updateNeighbors_measure[OF u] show ?thesis unfolding s by simp
qed

function marchNarrowBand ::
  "EikonalSolver_rec \<Rightarrow> int list list \<Rightarrow> sweep \<Rightarrow> error + sweep" where
  "marchNarrowBand eikonal_solver neighbor_offsets s =
     (case march_step eikonal_solver neighbor_offsets s of
        Inl e \<Rightarrow> Inl e
      | Inr None \<Rightarrow> Inr s
      | Inr (Some (v, s')) \<Rightarrow> marchNarrowBand eikonal_solver neighbor_offsets s')"
  by pat_completeness auto
termination
proof (relation "measure (\<lambda>(es, offs, s). sweep_measure s)")
  show "wf (measure (\<lambda>(es, offs, s). sweep_measure s))" by simp
next
  fix eikonal_solver :: EikonalSolver_rec and neighbor_offsets :: "int list list"
    and s :: sweep and x2 x2a v s'
  assume "march_step eikonal_solver neighbor_offsets s = Inr x2" "x2 = Some x2a" "(v, s') = x2a"
  then have "march_step eikonal_solver neighbor_offsets s = Inr (Some (v, s'))" by simp
  from march_step_measure[OF this]
  show "((eikonal_solver, neighbor_offsets, s'), (eikonal_solver, neighbor_offsets, s))
          \<in> measure (\<lambda>(es, offs, s). sweep_measure s)" by simp
qed

text \<open>The iterations of the loop of a sweep, in order (up to the first failure, if
  there is one): the value that \<open>pop\<close> returned and the state after the iteration.
  \<open>march_pops\<close> is the sequence of the popped values.\<close>

function march_trace ::
  "EikonalSolver_rec \<Rightarrow> int list list \<Rightarrow> sweep \<Rightarrow> ((fl \<times> int list) \<times> sweep) list" where
  "march_trace eikonal_solver neighbor_offsets s =
     (case march_step eikonal_solver neighbor_offsets s of
        Inl e \<Rightarrow> []
      | Inr None \<Rightarrow> []
      | Inr (Some (v, s')) \<Rightarrow> (v, s') # march_trace eikonal_solver neighbor_offsets s')"
  by pat_completeness auto
termination
proof (relation "measure (\<lambda>(es, offs, s). sweep_measure s)")
  show "wf (measure (\<lambda>(es, offs, s). sweep_measure s))" by simp
next
  fix eikonal_solver :: EikonalSolver_rec and neighbor_offsets :: "int list list"
    and s :: sweep and x2 x2a v s'
  assume "march_step eikonal_solver neighbor_offsets s = Inr x2" "x2 = Some x2a" "(v, s') = x2a"
  then have "march_step eikonal_solver neighbor_offsets s = Inr (Some (v, s'))" by simp
  from march_step_measure[OF this]
  show "((eikonal_solver, neighbor_offsets, s'), (eikonal_solver, neighbor_offsets, s))
          \<in> measure (\<lambda>(es, offs, s). sweep_measure s)" by simp
qed

definition march_pops ::
  "EikonalSolver_rec \<Rightarrow> int list list \<Rightarrow> sweep \<Rightarrow> (fl \<times> int list) list" where
  "march_pops eikonal_solver neighbor_offsets s =
     map fst (march_trace eikonal_solver neighbor_offsets s)"

declare march_trace.simps [simp del]

section \<open>The drivers\<close>

text \<open>The two direction predicates that the drivers pass to \<open>initializeNarrowBand\<close>
  (the lambdas of the header): the inside sweep flips the normal.\<close>

definition inside_pred :: "fl list \<Rightarrow> int list \<Rightarrow> bool" where
  "inside_pred normal neighbor_offset =
     fle (Fin 0)
       (foldl (\<lambda>acc (n, off). fadd acc (fmul (fmul (Fin (- 1)) n) (Fin (of_int off))))
          (Fin 0) (zip normal neighbor_offset))"

definition outside_pred :: "fl list \<Rightarrow> int list \<Rightarrow> bool" where
  "outside_pred normal neighbor_offset =
     fle (Fin 0)
       (foldl (\<lambda>acc (n, off). fadd acc (fmul n (Fin (of_int off))))
          (Fin 0) (zip normal neighbor_offset))"

definition unsignedDistance ::
  "nat list \<Rightarrow> fl list \<Rightarrow> fl \<Rightarrow> int list list \<Rightarrow> fl list \<Rightarrow> fl list list
     \<Rightarrow> error + fl list" where
  "unsignedDistance sz dx speed frozen_indices frozen_distances normals =
     bindE (throwIfInvalidSize sz) (\<lambda>_.
     bindE (throwIfInvalidSpacing dx) (\<lambda>_.
     bindE (throwIfInvalidSpeed speed) (\<lambda>_.
     bindE (throwIfSizeNotEqual3 frozen_indices frozen_distances normals) (\<lambda>_.
     bindE (throwIfInvalidIndex frozen_indices sz) (\<lambda>_.
     bindE (throwIfInvalidDistance frozen_distances (\<lambda>d. \<not> isnan d)) (\<lambda>_.
       (let state_grid = Grid sz (replicate (linearSize sz) Far);
            neighbor_offsets = offsets (length sz);
            eikonal_solver = EikonalSolver dx speed;
            distance_grid = Grid sz (replicate (linearSize sz) numeric_limits_max)
        in bindE (initializeFrozenCells frozen_indices frozen_distances (Fin (- 1))
                    (distance_grid, state_grid)) (\<lambda>gs1.
           bindE (initializeNarrowBand eikonal_solver frozen_indices neighbor_offsets normals
                    inside_pred gs1) (\<lambda>s2.
           bindE (marchNarrowBand eikonal_solver neighbor_offsets s2) (\<lambda>s3.
           bindE (initializeFrozenCells frozen_indices frozen_distances (Fin 1)
                    (fst s3, fst (snd s3))) (\<lambda>gs4.
           bindE (initializeNarrowBand eikonal_solver frozen_indices neighbor_offsets normals
                    outside_pred gs4) (\<lambda>s5.
           bindE (marchNarrowBand eikonal_solver neighbor_offsets s5) (\<lambda>s6.
           bindE (foldE (\<lambda>(index, d) g. set_cell g index (fabs d))
                    (zip frozen_indices frozen_distances) (fst s6)) (\<lambda>g7.
           Inr (g_cells g7)))))))))))))))"

definition signedDistance ::
  "nat list \<Rightarrow> fl list \<Rightarrow> fl \<Rightarrow> int list list \<Rightarrow> fl list \<Rightarrow> fl list list
     \<Rightarrow> error + fl list" where
  "signedDistance sz dx speed frozen_indices frozen_distances normals =
     bindE (throwIfInvalidSize sz) (\<lambda>_.
     bindE (throwIfInvalidSpacing dx) (\<lambda>_.
     bindE (throwIfInvalidSpeed speed) (\<lambda>_.
     bindE (throwIfSizeNotEqual3 frozen_indices frozen_distances normals) (\<lambda>_.
     bindE (throwIfInvalidIndex frozen_indices sz) (\<lambda>_.
     bindE (throwIfInvalidDistance frozen_distances (\<lambda>d. \<not> isnan d)) (\<lambda>_.
     bindE (throwIfInvalidNormal normals) (\<lambda>_.
       (let state_grid = Grid sz (replicate (linearSize sz) Far);
            neighbor_offsets = offsets (length sz);
            eikonal_solver = EikonalSolver dx speed;
            inside_distance_grid = Grid sz (replicate (linearSize sz) numeric_limits_max)
        in bindE (initializeFrozenCells frozen_indices frozen_distances (Fin (- 1))
                    (inside_distance_grid, state_grid)) (\<lambda>gs1.
           bindE (initializeNarrowBand eikonal_solver frozen_indices neighbor_offsets normals
                    inside_pred gs1) (\<lambda>s2.
           bindE (marchNarrowBand eikonal_solver neighbor_offsets s2) (\<lambda>s3.
           (let outside_distance_grid = Grid sz (replicate (linearSize sz) numeric_limits_max)
            in bindE (initializeFrozenCells frozen_indices frozen_distances (Fin 1)
                        (outside_distance_grid, fst (snd s3))) (\<lambda>gs4.
               bindE (initializeNarrowBand eikonal_solver frozen_indices neighbor_offsets normals
                        outside_pred gs4) (\<lambda>s5.
               bindE (marchNarrowBand eikonal_solver neighbor_offsets s5) (\<lambda>s6.
               (let inside_distance_buffer = g_cells (fst s3);
                    outside_distance_buffer = g_cells (fst s6);
                    distance_buffer0 = replicate (linearSize sz) numeric_limits_max;
                    distance_buffer1 =
                      fold (\<lambda>i buf. if fless (inside_distance_buffer ! i) numeric_limits_max
                                      then buf[i := fmul (Fin (- 1)) (inside_distance_buffer ! i)]
                                      else buf)
                        [0..<length inside_distance_buffer] distance_buffer0;
                    distance_buffer2 =
                      fold (\<lambda>i buf. if fless (outside_distance_buffer ! i) numeric_limits_max
                                      then buf[i := outside_distance_buffer ! i]
                                      else buf)
                        [0..<length outside_distance_buffer] distance_buffer1;
                    distance_grid = Grid sz distance_buffer2
                in bindE (foldE (\<lambda>(index, d) g. set_cell g index d)
                            (zip frozen_indices frozen_distances) distance_grid) (\<lambda>g.
                   Inr (g_cells g))))))))))))))))))"

section \<open>Facts about the sweeps\<close>

text \<open>Properties kept by a fold in the error monad and by the main loop, the three
  cases of the update of one neighbor, and the shape of the grids, which no stage of
  a sweep changes.\<close>

lemma foldE_preserves:
  assumes "\<And>x s s'. x \<in> set xs \<Longrightarrow> P s \<Longrightarrow> f x s = Inr s' \<Longrightarrow> P s'"
  shows "P s \<Longrightarrow> foldE f xs s = Inr s' \<Longrightarrow> P s'"
  using assms
proof (induction xs arbitrary: s)
  case Nil
  then show ?case by simp
next
  case (Cons x xs)
  from Cons.prems(2) obtain s1 where s1: "f x s = Inr s1" "foldE f xs s1 = Inr s'"
    by (auto simp: bindE_eq_Inr)
  have p1: "P s1" using Cons.prems(3)[of x s s1] Cons.prems(1) s1 by simp
  show ?case
  proof (rule Cons.IH[OF p1 s1(2)])
    fix y t t' assume "y \<in> set xs" "P t" "f y t = Inr t'"
    then show "P t'" using Cons.prems(3)[of y t t'] by simp
  qed
qed

lemma marchNarrowBand_preserves:
  assumes step: "\<And>s v s'. P s \<Longrightarrow> march_step es offs s = Inr (Some (v, s')) \<Longrightarrow> P s'"
  shows "P s \<Longrightarrow> marchNarrowBand es offs s = Inr s' \<Longrightarrow> P s'"
  using step
proof (induction es offs s rule: marchNarrowBand.induct)
  case (1 es offs s)
  show ?case
  proof (cases "march_step es offs s")
    case (Inl e)
    then show ?thesis using "1.prems"(2) by (subst (asm) marchNarrowBand.simps) simp
  next
    case (Inr r)
    show ?thesis
    proof (cases r)
      case None
      then show ?thesis using Inr "1.prems"(1,2) by (subst (asm) marchNarrowBand.simps) simp
    next
      case (Some p)
      obtain v s1 where p: "p = (v, s1)" by (cases p) auto
      have m: "marchNarrowBand es offs s1 = Inr s'"
        using "1.prems"(2) Inr Some p by (subst (asm) marchNarrowBand.simps) simp
      have p1: "P s1" using "1.prems"(3)[of s v s1] "1.prems"(1) Inr Some p by simp
      show ?thesis
      proof (rule "1.IH"[OF Inr Some p[symmetric] p1 m])
        fix t w t' assume "P t" "march_step es offs t = Inr (Some (w, t'))"
        then show "P t'" by (rule "1.prems"(3))
      qed
    qed
  qed
qed

lemma update_neighbor_cases:
  assumes "update_neighbor es index offs normal pred off (dg, sg, nb) = Inr s'"
  obtains (skip) "s' = (dg, sg, nb)"
  | (far) d dg' sg' nb' where "pred normal off" "inside (add_offset index off) (g_size dg)"
      "cell sg (add_offset index off) = Inr Far"
      "solve es (add_offset index off) offs dg sg = Inr d"
      "set_cell dg (add_offset index off) d = Inr dg'"
      "set_cell sg (add_offset index off) NarrowBand = Inr sg'"
      "insert_value (d, add_offset index off) nb = (Inr (), nb')"
      "s' = (dg', sg', nb')"
  | (band) d0 d dg' nb' where "pred normal off" "inside (add_offset index off) (g_size dg)"
      "cell sg (add_offset index off) = Inr NarrowBand"
      "cell dg (add_offset index off) = Inr d0"
      "solve es (add_offset index off) offs dg sg = Inr d" "fless d d0"
      "decrease_distance (add_offset index off) d nb = (Inr (), nb')"
      "set_cell dg (add_offset index off) d = Inr dg'"
      "s' = (dg', sg, nb')"
proof -
  let ?n = "add_offset index off"
  show ?thesis
  proof (cases "pred normal off \<and> inside ?n (g_size dg)")
    case False
    then have "s' = (dg, sg, nb)"
      using assms unfolding update_neighbor_def Let_def by (auto split: if_splits)
    then show ?thesis by (rule skip)
  next
    case True
    then obtain st where st: "cell sg ?n = Inr st"
      using assms unfolding update_neighbor_def Let_def by (auto simp: bindE_eq_Inr)
    show ?thesis
    proof (cases st)
      case Far
      then obtain d dg' sg' u nb' where
        "solve es ?n offs dg sg = Inr d" "set_cell dg ?n d = Inr dg'"
        "set_cell sg ?n NarrowBand = Inr sg'" "insert_value (d, ?n) nb = (Inr u, nb')"
        "s' = (dg', sg', nb')"
        using assms True st unfolding update_neighbor_def Let_def
        by (auto simp: bindE_eq_Inr case_outcome_Inr)
      then show ?thesis using far[of d dg' sg' nb'] True st Far by simp
    next
      case NarrowBand
      then obtain d0 d where d: "cell dg ?n = Inr d0" "solve es ?n offs dg sg = Inr d"
        using assms True st unfolding update_neighbor_def Let_def
        by (auto simp: bindE_eq_Inr)
      show ?thesis
      proof (cases "fless d d0")
        case False
        then have "s' = (dg, sg, nb)"
          using assms True st NarrowBand d unfolding update_neighbor_def Let_def by simp
        then show ?thesis by (rule skip)
      next
        case lt: True
        then obtain u nb' dg' where "decrease_distance ?n d nb = (Inr u, nb')"
          "set_cell dg ?n d = Inr dg'" "s' = (dg', sg, nb')"
          using assms True st NarrowBand d unfolding update_neighbor_def Let_def
          by (auto simp: bindE_eq_Inr case_outcome_Inr)
        then show ?thesis using band[of d0 d nb' dg'] True st NarrowBand d lt by simp
      qed
    next
      case Frozen
      then have "s' = (dg, sg, nb)"
        using assms True st unfolding update_neighbor_def Let_def by simp
      then show ?thesis by (rule skip)
    qed
  qed
qed

lemma updateNeighbors_Inr:
  assumes "updateNeighbors es index offs normal pred (dg, sg, nb) = Inr s'"
  shows "inside index (g_size dg)" "inside index (g_size sg)" "cell sg index = Inr Frozen"
    "foldE (update_neighbor es index offs normal pred) offs (dg, sg, nb) = Inr s'"
  using assms unfolding updateNeighbors_def
  by (auto simp: bindE_eq_Inr split: if_splits)

definition shape :: "'a grid \<Rightarrow> nat list \<times> nat list \<times> nat" where
  "shape g = (g_size g, g_strides g, length (g_cells g))"

definition shapes :: "sweep \<Rightarrow> (nat list \<times> nat list \<times> nat) \<times> (nat list \<times> nat list \<times> nat)" where
  "shapes s = (shape (fst s), shape (fst (snd s)))"

lemma set_cell_shape: "set_cell g index v = Inr g' \<Longrightarrow> shape g' = shape g"
  by (auto simp: set_cell_Inr shape_def)

lemma update_neighbor_shapes:
  assumes "update_neighbor es index offs normal pred off s = Inr s'"
  shows "shapes s' = shapes s"
proof -
  obtain dg sg nb where s: "s = (dg, sg, nb)" by (cases s) auto
  from assms[unfolded s] show ?thesis
    by (cases rule: update_neighbor_cases) (auto simp: shapes_def s dest: set_cell_shape)
qed

lemma updateNeighbors_shapes:
  assumes "updateNeighbors es index offs normal pred s = Inr s'"
  shows "shapes s' = shapes s"
proof -
  obtain dg sg nb where s: "s = (dg, sg, nb)" by (cases s) auto
  have "shapes s' = shapes (dg, sg, nb)"
  proof (rule foldE_preserves[where P = "\<lambda>t. shapes t = shapes (dg, sg, nb)"
        and f = "update_neighbor es index offs normal pred" and xs = offs
        and s = "(dg, sg, nb)"])
    show "shapes (dg, sg, nb) = shapes (dg, sg, nb)" by simp
    show "foldE (update_neighbor es index offs normal pred) offs (dg, sg, nb) = Inr s'"
      by (rule updateNeighbors_Inr(4)[OF assms[unfolded s]])
  next
    fix x t t'
    assume "shapes t = shapes (dg, sg, nb)" "update_neighbor es index offs normal pred x t = Inr t'"
    then show "shapes t' = shapes (dg, sg, nb)" using update_neighbor_shapes[of es index offs normal pred x t t'] by simp
  qed
  then show ?thesis by (simp add: s)
qed

lemma march_step_shapes:
  assumes "march_step es offs s = Inr (Some (v, s'))"
  shows "shapes s' = shapes s"
proof -
  obtain dg sg nb where s: "s = (dg, sg, nb)" by (cases s) auto
  from assms[unfolded s] obtain nb' dg' sg' where
    a: "set_cell dg (snd v) (fst v) = Inr dg'" and b: "set_cell sg (snd v) Frozen = Inr sg'" and
    c: "updateNeighbors es (snd v) offs (replicate (length (snd v)) NaN) (\<lambda>_ _. True)
       (dg', sg', nb') = Inr s'"
    by (rule march_step_SomeE)
  from set_cell_shape[OF a] set_cell_shape[OF b] updateNeighbors_shapes[OF c]
  show ?thesis by (simp add: shapes_def s)
qed

lemma marchNarrowBand_shapes:
  assumes "marchNarrowBand es offs s = Inr s'"
  shows "shapes s' = shapes s"
proof (rule marchNarrowBand_preserves[where P = "\<lambda>t. shapes t = shapes s" and es = es
      and offs = offs and s = s])
  show "shapes s = shapes s" by simp
  show "marchNarrowBand es offs s = Inr s'" by fact
next
  fix t v t'
  assume "shapes t = shapes s" "march_step es offs t = Inr (Some (v, t'))"
  then show "shapes t' = shapes s" using march_step_shapes[of es offs t v t'] by simp
qed

lemma initializeFrozenCells_Inr:
  assumes "initializeFrozenCells idx ds m gs = Inr gs'"
  shows "length idx = length ds"
    "foldE (\<lambda>(index, distance) (distance_grid, state_grid).
           if \<not> inside index (g_size distance_grid) then Inl AssertionFailed
           else if \<not> inside index (g_size state_grid) then Inl AssertionFailed
           else bindE (set_cell distance_grid index (fmul m distance))
             (\<lambda>distance_grid'. bindE (set_cell state_grid index Frozen)
               (\<lambda>state_grid'. Inr (distance_grid', state_grid'))))
        (zip idx ds) gs = Inr gs'"
  using assms by (auto simp: initializeFrozenCells_def split: if_splits)

lemma freeze_step_Inr:
  assumes "(\<lambda>(index, distance) (distance_grid, state_grid).
           if \<not> inside index (g_size distance_grid) then Inl AssertionFailed
           else if \<not> inside index (g_size state_grid) then Inl AssertionFailed
           else bindE (set_cell distance_grid index (fmul m distance))
             (\<lambda>distance_grid'. bindE (set_cell state_grid index Frozen)
               (\<lambda>state_grid'. Inr (distance_grid', state_grid')))) x t = Inr t'"
  shows "set_cell (fst t) (fst x) (fmul m (snd x)) = Inr (fst t')"
    "set_cell (snd t) (fst x) Frozen = Inr (snd t')"
  using assms by (cases x; cases t; auto simp: bindE_eq_Inr split: if_splits)+

lemma initializeFrozenCells_shapes:
  assumes "initializeFrozenCells idx ds m gs = Inr gs'"
  shows "shape (fst gs') = shape (fst gs)" "shape (snd gs') = shape (snd gs)"
proof -
  let ?P = "\<lambda>t. shape (fst t) = shape (fst gs) \<and> shape (snd t) = shape (snd gs)"
  have "?P gs'"
  proof (rule foldE_preserves[where P = ?P and s = gs, OF _ _ initializeFrozenCells_Inr(2)[OF assms]])
    show "?P gs" by simp
  next
    fix x t t'
    assume P: "?P t" and st: "(\<lambda>(index, distance) (distance_grid, state_grid).
           if \<not> inside index (g_size distance_grid) then Inl AssertionFailed
           else if \<not> inside index (g_size state_grid) then Inl AssertionFailed
           else bindE (set_cell distance_grid index (fmul m distance))
             (\<lambda>distance_grid'. bindE (set_cell state_grid index Frozen)
               (\<lambda>state_grid'. Inr (distance_grid', state_grid')))) x t = Inr t'"
    from set_cell_shape[OF freeze_step_Inr(1)[OF st]] set_cell_shape[OF freeze_step_Inr(2)[OF st]] P
    show "?P t'" by simp
  qed
  then show "shape (fst gs') = shape (fst gs)" "shape (snd gs') = shape (snd gs)" by simp_all
qed

lemma initializeNarrowBand_Inr:
  assumes "initializeNarrowBand es idx offs ns pred gs = Inr s'"
  shows "length idx \<le> length ns"
    "foldE (\<lambda>(index, normal). updateNeighbors es index offs normal pred)
      (zip idx ns) (fst gs, snd gs, NarrowBandStore) = Inr s'"
    "nb_empty (snd (snd s')) = Inr False"
  using assms by (auto simp: initializeNarrowBand_def bindE_eq_Inr split: if_splits)

lemma initializeNarrowBand_shapes:
  assumes "initializeNarrowBand es idx offs ns pred gs = Inr s'"
  shows "shape (fst s') = shape (fst gs)" "shape (fst (snd s')) = shape (snd gs)"
proof -
  have "shapes s' = shapes (fst gs, snd gs, NarrowBandStore)"
  proof (rule foldE_preserves[where P = "\<lambda>t. shapes t = shapes (fst gs, snd gs, NarrowBandStore)",
          OF _ refl initializeNarrowBand_Inr(2)[OF assms]])
    fix x t t'
    assume "shapes t = shapes (fst gs, snd gs, NarrowBandStore)"
      "(case x of (index, normal) \<Rightarrow> updateNeighbors es index offs normal pred) t = Inr t'"
    then show "shapes t' = shapes (fst gs, snd gs, NarrowBandStore)"
      using updateNeighbors_shapes[of es "fst x" offs "snd x" pred t t'] by (cases x) simp
  qed
  then show "shape (fst s') = shape (fst gs)" "shape (fst (snd s')) = shape (snd gs)"
    by (simp_all add: shapes_def)
qed


lemma linear_offset_inj:
  assumes "g_strides g = strides_loop 1 (butlast (g_size g))"
    "inside i1 (g_size g)" "inside i2 (g_size g)" "i1 \<noteq> []" "i2 \<noteq> []"
    "linear_offset g i1 = linear_offset g i2"
  shows "i1 = i2"
proof -
  have "linear_offset g i1 = mixed i1 (g_size g)" "linear_offset g i2 = mixed i2 (g_size g)"
    using assms by (simp_all add: linear_offset_mixed inside_length)
  then show ?thesis using assms mixed_inj by metis
qed

lemma write_cells_frame:
  assumes "foldE (\<lambda>(index, d) g. set_cell g index (f d)) zs g = Inr g'"
  shows "shape g' = shape g
     \<and> (\<forall>k. k \<notin> (\<lambda>z. linear_offset g (fst z)) ` set zs \<longrightarrow> g_cells g' ! k = g_cells g ! k)
     \<and> (\<forall>z \<in> set zs. inside (fst z) (g_size g) \<and> fst z \<noteq> [])"
  using assms
proof (induction zs arbitrary: g)
  case Nil
  then show ?case by simp
next
  case (Cons z zs)
  obtain index d where z: "z = (index, d)" by (cases z) auto
  from Cons.prems obtain g1 where g1: "set_cell g index (f d) = Inr g1"
    and r: "foldE (\<lambda>(index, d) g. set_cell g index (f d)) zs g1 = Inr g'"
    by (auto simp: z bindE_eq_Inr)
  have sh: "shape g1 = shape g" using set_cell_shape[OF g1] .
  then have lo: "linear_offset g1 = linear_offset g" and sz: "g_size g1 = g_size g"
    by (auto simp: shape_def linear_offset_def fun_eq_iff)
  have c1: "g_cells g1 = (g_cells g)[linear_offset g index := f d]"
    and ins: "inside index (g_size g)" "index \<noteq> []"
    using g1 by (auto simp: set_cell_Inr)
  from Cons.IH[OF r] sh lo sz c1 ins show ?case
    by (auto simp: z)
qed

lemma write_cells_value:
  assumes "length idx = length ds"
    and "foldE (\<lambda>(index, d) g. set_cell g index (f d)) (zip idx ds) g = Inr g'"
    and "distinct idx"
    and st: "g_strides g = strides_loop 1 (butlast (g_size g))"
    and "i < length idx"
  shows "g_cells g' ! linear_offset g (idx ! i) = f (ds ! i)"
  using assms
proof (induction idx ds arbitrary: g i rule: list_induct2)
  case Nil
  then show ?case by simp
next
  case (Cons x xs d ds)
  from Cons.prems(1) obtain g1 where g1: "set_cell g x (f d) = Inr g1"
    and r: "foldE (\<lambda>(index, d) g. set_cell g index (f d)) (zip xs ds) g1 = Inr g'"
    by (auto simp: bindE_eq_Inr)
  have sh: "shape g1 = shape g" using set_cell_shape[OF g1] .
  then have lo: "linear_offset g1 = linear_offset g" and sz: "g_size g1 = g_size g"
    and st1: "g_strides g1 = strides_loop 1 (butlast (g_size g1))"
    using Cons.prems(3) by (auto simp: shape_def linear_offset_def fun_eq_iff)
  have c1: "g_cells g1 = (g_cells g)[linear_offset g x := f d]"
    and ins: "inside x (g_size g)" "x \<noteq> []" "linear_offset g x < length (g_cells g)"
    using g1 by (auto simp: set_cell_Inr)
  note fr = write_cells_frame[OF r]
  show ?case
  proof (cases i)
    case 0
    have "linear_offset g x \<notin> (\<lambda>z. linear_offset g1 (fst z)) ` set (zip xs ds)"
    proof
      assume "linear_offset g x \<in> (\<lambda>z. linear_offset g1 (fst z)) ` set (zip xs ds)"
      then obtain z where z: "z \<in> set (zip xs ds)" "linear_offset g x = linear_offset g (fst z)"
        by (auto simp: lo)
      then have "inside (fst z) (g_size g)" "fst z \<noteq> []" using fr sz by auto
      from linear_offset_inj[OF Cons.prems(3) ins(1) this(1) ins(2) this(2) z(2)]
      have "x = fst z" .
      moreover have "fst z \<in> set xs" using z(1) set_zip_leftD[of "fst z" "snd z" xs ds] by simp
      ultimately show False using Cons.prems(2) by simp
    qed
    then have "g_cells g' ! linear_offset g x = g_cells g1 ! linear_offset g x" using fr by blast
    then show ?thesis using 0 c1 ins by simp
  next
    case (Suc j)
    then have "j < length xs" using Cons.prems(4) by simp
    from Cons.IH[OF r _ st1 this] Cons.prems(2) show ?thesis using Suc lo by simp
  qed
qed

text \<open>A driver that returns has passed every stage.\<close>

lemma unsignedDistance_Inr:
  assumes "unsignedDistance sz dx speed idx ds ns = Inr buf"
  obtains gs1 s2 s3 gs4 s5 s6 g7 where
    "initializeFrozenCells idx ds (Fin (- 1))
       (Grid sz (replicate (linearSize sz) numeric_limits_max),
        Grid sz (replicate (linearSize sz) Far)) = Inr gs1"
    "initializeNarrowBand (EikonalSolver dx speed) idx (offsets (length sz)) ns inside_pred gs1
       = Inr s2"
    "marchNarrowBand (EikonalSolver dx speed) (offsets (length sz)) s2 = Inr s3"
    "initializeFrozenCells idx ds (Fin 1) (fst s3, fst (snd s3)) = Inr gs4"
    "initializeNarrowBand (EikonalSolver dx speed) idx (offsets (length sz)) ns outside_pred gs4
       = Inr s5"
    "marchNarrowBand (EikonalSolver dx speed) (offsets (length sz)) s5 = Inr s6"
    "foldE (\<lambda>(index, d) g. set_cell g index (fabs d)) (zip idx ds) (fst s6) = Inr g7"
    "buf = g_cells g7"
  using assms unfolding unsignedDistance_def Let_def bindE_eq_Inr by blast

definition merge_buffers :: "nat \<Rightarrow> fl list \<Rightarrow> fl list \<Rightarrow> fl list" where
  "merge_buffers n inside_distance_buffer outside_distance_buffer =
     fold (\<lambda>i buf. if fless (outside_distance_buffer ! i) numeric_limits_max
                     then buf[i := outside_distance_buffer ! i] else buf)
       [0..<length outside_distance_buffer]
       (fold (\<lambda>i buf. if fless (inside_distance_buffer ! i) numeric_limits_max
                       then buf[i := fmul (Fin (- 1)) (inside_distance_buffer ! i)] else buf)
          [0..<length inside_distance_buffer] (replicate n numeric_limits_max))"

lemma signedDistance_Inr:
  assumes "signedDistance sz dx speed idx ds ns = Inr buf"
  obtains gs1 s2 s3 gs4 s5 s6 g7 where
    "initializeFrozenCells idx ds (Fin (- 1))
       (Grid sz (replicate (linearSize sz) numeric_limits_max),
        Grid sz (replicate (linearSize sz) Far)) = Inr gs1"
    "initializeNarrowBand (EikonalSolver dx speed) idx (offsets (length sz)) ns inside_pred gs1
       = Inr s2"
    "marchNarrowBand (EikonalSolver dx speed) (offsets (length sz)) s2 = Inr s3"
    "initializeFrozenCells idx ds (Fin 1)
       (Grid sz (replicate (linearSize sz) numeric_limits_max), fst (snd s3)) = Inr gs4"
    "initializeNarrowBand (EikonalSolver dx speed) idx (offsets (length sz)) ns outside_pred gs4
       = Inr s5"
    "marchNarrowBand (EikonalSolver dx speed) (offsets (length sz)) s5 = Inr s6"
    "foldE (\<lambda>(index, d) g. set_cell g index d) (zip idx ds)
       (Grid sz (merge_buffers (linearSize sz) (g_cells (fst s3)) (g_cells (fst s6)))) = Inr g7"
    "buf = g_cells g7"
  using assms unfolding signedDistance_def Let_def bindE_eq_Inr merge_buffers_def by blast

lemma shape_Grid: "shape (Grid sz cells) = (sz, strides_loop 1 (butlast sz), length cells)"
  by (simp add: shape_def Grid_def)

lemma sweep_shapes:
  assumes "initializeFrozenCells idx ds m (dg, sg) = Inr gs1"
    "initializeNarrowBand es idx offs ns pred gs1 = Inr s2"
    "marchNarrowBand es offs s2 = Inr s3"
  shows "shape (fst s3) = shape dg" "shape (fst (snd s3)) = shape sg"
  using initializeFrozenCells_shapes[OF assms(1)] initializeNarrowBand_shapes[OF assms(2)]
    marchNarrowBand_shapes[OF assms(3)]
  by (simp_all add: shapes_def)

section \<open>Running the drivers\<close>

text \<open>The definitions that a concrete run of a driver unfolds.\<close>

lemmas run_eval =
  unsignedDistance_def signedDistance_def
  throwIfInvalidSize_def throwIfInvalidSpacing_def throwIfInvalidSpeed_def
  throwIfSizeNotEqual3_def throwIfSizeNotEqual_def throwIfInvalidIndex_def
  throwIfInvalidDistance_def throwIfInvalidNormal_def squaredMagnitude_def
  initializeFrozenCells_def initializeNarrowBand_def updateNeighbors_def update_neighbor_def
  march_step_def marchNarrowBand.simps march_trace.simps march_pops_def
  inside_pred_def outside_pred_def
  solve_def solveQuadratic_def fsub_def std_max_def isnan_def
  solve_coefficients_def solve_axis_def frozen_neighbor_step_def
  offsets_def unit_offset_def add_offset_def inside_def cell_def set_cell_def linearIndex_def
  linear_offset_def Grid_def EikonalSolver_def inverseSquared_def squared_def
  std_min_def numeric_limits_max_def linearSize_def
  insert_value_def pop_def decrease_distance_def increase_distance_def
  nb_empty_def swap_pos_def parent_pos_def left_child_pos_def right_child_pos_def
  NarrowBandStore_def sift_up.simps sift_down.simps Let_def

text \<open>A run with one seed of negative distance: the unsigned buffer holds its absolute
  value, the signed buffer the value itself.\<close>

lemma unsigned_run_seed:
  "unsignedDistance [3] [Fin 1] (Fin 1) [[1]] [Fin (- 1)] [[Fin 1]]
     = Inr [Fin 2, Fin 1, Fin 0]"
  using flt_max_gt by (simp add: run_eval eval_nat_numeral)

lemma signed_run_seed:
  "signedDistance [3] [Fin 1] (Fin 1) [[1]] [Fin (- 1)] [[Fin 1]]
     = Inr [Fin (- 2), Fin (- 1), Fin 0]"
  using flt_max_gt by (simp add: run_eval eval_nat_numeral)

section \<open>The quadratic solver (C2)\<close>

text \<open>The case analysis in the words of the claim: the conditions are the claim's
  (\<open>|b| >= eps\<close> is written as such, not as the failure of \<open>|b| < eps\<close>).\<close>

definition quadratic_claim :: "fl \<Rightarrow> fl \<Rightarrow> fl \<Rightarrow> fl" where
  "quadratic_claim c b a =
     (let eps = Fin (1 / 10 ^ 9);
          d = fsub (fmul b b) (fmul (fmul (Fin 4) a) c);
          r0 = (if fless b (Fin 0)
                then fdiv (fadd (fneg b) (fsqrt d)) (fmul (Fin 2) a)
                else fdiv (fsub (fneg b) (fsqrt d)) (fmul (Fin 2) a))
      in if fless (fabs a) eps \<and> fless (fabs b) eps then NaN
         else if fless (fabs a) eps \<and> fle eps (fabs b) then fdiv (fneg c) b
         else if fle eps (fabs a) \<and> fless (fabs b) eps then fsqrt (fdiv (fneg c) a)
         else if fle d eps then NaN
         else std_max r0 (fdiv c (fmul a r0)))"

lemma solveQuadratic_claim: "fst (solveQuadratic (c, b, a)) = quadratic_claim c b a"
proof -
  consider "a = NaN" | "a \<noteq> NaN" "b = NaN" | "a \<noteq> NaN" "b \<noteq> NaN" by blast
  then show ?thesis
  proof cases
    case 1
    then show ?thesis
      by (simp add: solveQuadratic_def quadratic_claim_def Let_def fsub_def)
  next
    case 2
    then show ?thesis
      by (simp add: solveQuadratic_def quadratic_claim_def Let_def fsub_def)
  next
    case 3
    then have "fle (Fin (1 / 10 ^ 9)) (fabs a) \<longleftrightarrow> \<not> fless (fabs a) (Fin (1 / 10 ^ 9))"
      "fle (Fin (1 / 10 ^ 9)) (fabs b) \<longleftrightarrow> \<not> fless (fabs b) (Fin (1 / 10 ^ 9))"
      by (simp_all add: fle_iff_not_fless)
    then show ?thesis
      unfolding solveQuadratic_def quadratic_claim_def Let_def by (simp only: fst_conv snd_conv split: if_splits) auto
  qed
qed

lemma quadratic_roots:
  fixes a b c :: real
  assumes a: "a \<noteq> 0" and d: "0 < b * b - 4 * a * c"
    and r0: "r0 = (- b + s) / (2 * a) \<or> r0 = (- b - s) / (2 * a)"
    and s: "s = sqrt (b * b - 4 * a * c)" and nz: "r0 \<noteq> 0" and r1: "r1 = c / (a * r0)"
  shows "a * r0\<^sup>2 + b * r0 + c = 0" "a * r1\<^sup>2 + b * r1 + c = 0"
    "a * y\<^sup>2 + b * y + c = 0 \<Longrightarrow> y = r0 \<or> y = r1"
proof -
  have ss: "s * s = b * b - 4 * a * c" using d s by simp
  have "2 * a * r0 + b = s \<or> 2 * a * r0 + b = - s"
    using r0 a by (auto simp: field_simps)
  then have "(2 * a * r0 + b) * (2 * a * r0 + b) = s * s" by auto
  then have "4 * a * (a * r0\<^sup>2 + b * r0 + c) = 0"
    using ss by (simp add: algebra_simps power2_eq_square)
  then show R0: "a * r0\<^sup>2 + b * r0 + c = 0" using a by simp
  have prod: "a * (r0 * r1) = c" using a nz r1 by simp
  have "r0 * (a * r0 + b + a * r1) = a * r0\<^sup>2 + b * r0 + a * (r0 * r1)"
    by (simp add: algebra_simps power2_eq_square)
  then have "r0 * (a * r0 + b + a * r1) = 0" using R0 prod by simp
  then have sum: "a * r0 + a * r1 = - b" using nz by auto
  have "a * r1\<^sup>2 + b * r1 + c = a * r1\<^sup>2 + (- (a * r0 + a * r1)) * r1 + a * (r0 * r1)"
    using sum prod by simp
  also have "\<dots> = 0" by (simp add: algebra_simps power2_eq_square)
  finally show "a * r1\<^sup>2 + b * r1 + c = 0" .
  assume y: "a * y\<^sup>2 + b * y + c = 0"
  have "a * ((y - r0) * (y - r1)) = a * y\<^sup>2 - (a * r0 + a * r1) * y + a * (r0 * r1)"
    by (simp add: algebra_simps power2_eq_square)
  also have "\<dots> = 0" using y by (simp add: sum prod)
  finally show "y = r0 \<or> y = r1" using a by auto
qed



lemma solveQuadratic_two_roots:
  fixes a b c :: real
  assumes a: "1 / 10 ^ 9 \<le> \<bar>a\<bar>" and b: "1 / 10 ^ 9 \<le> \<bar>b\<bar>"
    and d: "1 / 10 ^ 9 < b * b - 4 * a * c"
  shows "\<exists>x. fst (solveQuadratic (Fin c, Fin b, Fin a)) = Fin x
           \<and> a * x\<^sup>2 + b * x + c = 0 \<and> (\<forall>y. a * y\<^sup>2 + b * y + c = 0 \<longrightarrow> y \<le> x)"
proof -
  define s where "s = sqrt (b * b - 4 * a * c)"
  define r0 where "r0 = (if b < 0 then (- b + s) / (2 * a) else (- b - s) / (2 * a))"
  define r1 where "r1 = c / (a * r0)"
  have a0: "a \<noteq> 0" using a by auto
  have d0: "0 < b * b - 4 * a * c" using d by (smt (verit) divide_pos_pos zero_less_power)
  have s0: "0 < s" using d0 by (simp add: s_def)
  have b0: "\<not> b < 0 \<Longrightarrow> 0 < b" using b by (smt (verit) divide_pos_pos zero_less_power)
  have num: "(if b < 0 then - b + s else - b - s) \<noteq> 0" using s0 b0 by auto
  have nz: "r0 \<noteq> 0" using num a0 by (auto simp: r0_def)
  have r0': "r0 = (- b + s) / (2 * a) \<or> r0 = (- b - s) / (2 * a)" by (auto simp: r0_def)
  note R = quadratic_roots[OF a0 d0 r0' s_def nz r1_def]
  have e1: "fless (fabs (Fin a)) (Fin (1 / 10 ^ 9)) = False" using a by simp
  have e2: "fless (fabs (Fin b)) (Fin (1 / 10 ^ 9)) = False" using b by simp
  have e3: "fsub (fmul (Fin b) (Fin b)) (fmul (fmul (Fin 4) (Fin a)) (Fin c))
              = Fin (b * b - 4 * a * c)" by (simp add: fsub_def)
  have e4: "fle (Fin (b * b - 4 * a * c)) (Fin (1 / 10 ^ 9)) = False" using d by simp
  have e5: "fsqrt (Fin (b * b - 4 * a * c)) = Fin s" using d0 by (simp add: s_def)
  have e6: "(if fless (Fin b) (Fin 0)
             then fdiv (fadd (fneg (Fin b)) (Fin s)) (fmul (Fin 2) (Fin a))
             else fdiv (fsub (fneg (Fin b)) (Fin s)) (fmul (Fin 2) (Fin a))) = Fin r0"
    using a0 by (simp add: r0_def fsub_def)
  have e7: "fdiv (Fin c) (fmul (Fin a) (Fin r0)) = Fin r1" using a0 nz by (simp add: r1_def)
  have e8: "std_max (Fin r0) (Fin r1) = Fin (max r0 r1)" by (simp add: std_max_def max_def)
  have val: "fst (solveQuadratic (Fin c, Fin b, Fin a)) = Fin (max r0 r1)"
    unfolding solveQuadratic_def Let_def fst_conv snd_conv
    by (simp only: e1 e2 e3 e4 e5 e6 e7 e8 if_False fst_conv)
  show ?thesis
  proof (intro exI conjI allI impI)
    show "fst (solveQuadratic (Fin c, Fin b, Fin a)) = Fin (max r0 r1)" by (rule val)
    show "a * (max r0 r1)\<^sup>2 + b * max r0 r1 + c = 0" using R(1,2) by (auto simp: max_def)
    fix y assume "a * y\<^sup>2 + b * y + c = 0"
    from R(3)[OF this] show "y \<le> max r0 r1" by auto
  qed
qed

lemma solveQuadratic_pure:
  fixes a b c :: real
  assumes a: "1 / 10 ^ 9 \<le> \<bar>a\<bar>" and b: "\<bar>b\<bar> < 1 / 10 ^ 9" and c: "0 \<le> - c / a"
  shows "fst (solveQuadratic (Fin c, Fin b, Fin a)) = Fin (sqrt (- c / a))"
  using assms by (auto simp: solveQuadratic_def Let_def not_less)

lemma solve_returns_first_root:
  assumes "solve es index offs dg sg = Inr r"
  shows "\<exists>q. solve_coefficients es index offs dg sg = Inr q \<and> r = fst (solveQuadratic q)"
  using assms by (auto simp: solve_def bindE_eq_Inr Let_def split: if_splits)


text \<open>
  C2. For every coefficient triple \<open>(c, b, a)\<close> the first component of
  \<open>solveQuadratic\<close> is the value of the claim's case analysis with \<open>eps = 1e-9\<close>:
  NaN when both \<open>|a|\<close> and \<open>|b|\<close> are below \<open>eps\<close>, \<open>-c/b\<close> when only \<open>|a|\<close> is,
  \<open>sqrt(-c/a)\<close> when only \<open>|b|\<close> is, NaN when the discriminant is at most \<open>eps\<close>, and
  \<open>max(r0, c/(a*r0))\<close> otherwise. On finite coefficients \<open>sqrt(-c/a)\<close> is the larger of
  the pair \<open>+/- sqrt(-c/a)\<close>, and in the last case the value is a root of
  \<open>a x^2 + b x + c\<close> that no other real root exceeds. Whenever \<open>solve\<close> returns, it
  returns this first component for the coefficients it assembled.
\<close>

theorem solveQuadratic_by_cases:
  "(\<forall>c b a. fst (solveQuadratic (c, b, a)) = quadratic_claim c b a)
   \<and> (\<forall>c b a :: real. 1 / 10 ^ 9 \<le> \<bar>a\<bar> \<and> \<bar>b\<bar> < 1 / 10 ^ 9 \<and> 0 \<le> - c / a \<longrightarrow>
        fst (solveQuadratic (Fin c, Fin b, Fin a)) = Fin (sqrt (- c / a))
        \<and> - sqrt (- c / a) \<le> sqrt (- c / a))
   \<and> (\<forall>c b a :: real. 1 / 10 ^ 9 \<le> \<bar>a\<bar> \<and> 1 / 10 ^ 9 \<le> \<bar>b\<bar>
          \<and> 1 / 10 ^ 9 < b * b - 4 * a * c \<longrightarrow>
        (\<exists>x. fst (solveQuadratic (Fin c, Fin b, Fin a)) = Fin x
           \<and> a * x\<^sup>2 + b * x + c = 0 \<and> (\<forall>y. a * y\<^sup>2 + b * y + c = 0 \<longrightarrow> y \<le> x)))
   \<and> (\<forall>es index offs dg sg r. solve es index offs dg sg = Inr r \<longrightarrow>
        (\<exists>q. solve_coefficients es index offs dg sg = Inr q \<and> r = fst (solveQuadratic q)))"
proof (intro conjI allI impI)
  fix c b a :: fl
  show "fst (solveQuadratic (c, b, a)) = quadratic_claim c b a"
    by (rule solveQuadratic_claim)
next
  fix c b a :: real
  assume h: "1 / 10 ^ 9 \<le> \<bar>a\<bar> \<and> \<bar>b\<bar> < 1 / 10 ^ 9 \<and> 0 \<le> - c / a"
  then show "fst (solveQuadratic (Fin c, Fin b, Fin a)) = Fin (sqrt (- c / a))"
    by (intro solveQuadratic_pure) simp_all
  from h show "- sqrt (- c / a) \<le> sqrt (- c / a)" by simp
next
  fix c b a :: real
  assume "1 / 10 ^ 9 \<le> \<bar>a\<bar> \<and> 1 / 10 ^ 9 \<le> \<bar>b\<bar> \<and> 1 / 10 ^ 9 < b * b - 4 * a * c"
  then show "\<exists>x. fst (solveQuadratic (Fin c, Fin b, Fin a)) = Fin x
           \<and> a * x\<^sup>2 + b * x + c = 0 \<and> (\<forall>y. a * y\<^sup>2 + b * y + c = 0 \<longrightarrow> y \<le> x)"
    by (intro solveQuadratic_two_roots) simp_all
next
  fix es index offs dg sg r
  assume "solve es index offs dg sg = Inr r"
  then show "\<exists>q. solve_coefficients es index offs dg sg = Inr q \<and> r = fst (solveQuadratic q)"
    by (rule solve_returns_first_root)
qed

section \<open>Concrete runs of the solver\<close>

lemmas solver_eval = solve_coefficients_def solve_axis_def frozen_neighbor_step_def
  offsets_def unit_offset_def add_offset_def inside_def cell_def linearIndex_def
  linear_offset_def Grid_def EikonalSolver_def inverseSquared_def squared_def
  std_min_def numeric_limits_max_def

lemma solve_coefficients_example:
  "solve_coefficients (EikonalSolver [Fin 1] (Fin 1)) [0] (offsets 1)
      (Grid [2] [Fin 0, Fin 5]) (Grid [2] [Far, Frozen])
   = Inr (Fin 24, Fin (- 10), Fin 1)"
  using flt_max_gt by (simp add: solver_eval)

lemma solveQuadratic_example:
  "fst (solveQuadratic (Fin 24, Fin (- 10), Fin 1)) = Fin 6"
  by (simp add: solveQuadratic_def fsub_def std_max_def Let_def)

lemma solve_example:
  "solve (EikonalSolver [Fin 1] (Fin 1)) [0] (offsets 1)
      (Grid [2] [Fin 0, Fin 5]) (Grid [2] [Far, Frozen]) = Inr (Fin 6)"
  using flt_max_gt
  by (simp add: solve_def solveQuadratic_def fsub_def std_max_def Let_def isnan_def solver_eval)

theorem solveQuadratic_by_cases_witness:
  "fst (solveQuadratic (Fin 24, Fin (- 10), Fin 1)) = quadratic_claim (Fin 24) (Fin (- 10)) (Fin 1)
   \<and> quadratic_claim (Fin 24) (Fin (- 10)) (Fin 1) = Fin 6
   \<and> ((1 / 10 ^ 9 :: real) \<le> \<bar>1\<bar> \<and> \<bar>0 :: real\<bar> < 1 / 10 ^ 9 \<and> (0 :: real) \<le> - (- 4) / 1)
   \<and> fst (solveQuadratic (Fin (- 4), Fin 0, Fin 1)) = Fin (sqrt (- (- 4) / 1))
   \<and> ((1 / 10 ^ 9 :: real) \<le> \<bar>1\<bar> \<and> (1 / 10 ^ 9 :: real) \<le> \<bar>- 10\<bar>
        \<and> (1 / 10 ^ 9 :: real) < (- 10) * (- 10) - 4 * 1 * 24)
   \<and> (\<exists>x :: real. fst (solveQuadratic (Fin 24, Fin (- 10), Fin 1)) = Fin x
         \<and> 1 * x\<^sup>2 + (- 10) * x + 24 = 0 \<and> (\<forall>y. 1 * y\<^sup>2 + (- 10) * y + 24 = 0 \<longrightarrow> y \<le> x))
   \<and> solve (EikonalSolver [Fin 1] (Fin 1)) [0] (offsets 1)
        (Grid [2] [Fin 0, Fin 5]) (Grid [2] [Far, Frozen]) = Inr (Fin 6)
   \<and> (\<exists>q. solve_coefficients (EikonalSolver [Fin 1] (Fin 1)) [0] (offsets 1)
            (Grid [2] [Fin 0, Fin 5]) (Grid [2] [Far, Frozen]) = Inr q
          \<and> Fin 6 = fst (solveQuadratic q))"
proof -
  note T = solveQuadratic_by_cases
  have h1: "(1 / 10 ^ 9 :: real) \<le> \<bar>1\<bar> \<and> \<bar>0 :: real\<bar> < 1 / 10 ^ 9 \<and> (0 :: real) \<le> - (- 4) / 1"
    by simp
  have h2: "(1 / 10 ^ 9 :: real) \<le> \<bar>1\<bar> \<and> (1 / 10 ^ 9 :: real) \<le> \<bar>- 10\<bar>
        \<and> (1 / 10 ^ 9 :: real) < (- 10) * (- 10) - 4 * 1 * 24"
    by simp
  have c1: "fst (solveQuadratic (Fin 24, Fin (- 10), Fin 1))
              = quadratic_claim (Fin 24) (Fin (- 10)) (Fin 1)"
    using T by blast
  have c2: "fst (solveQuadratic (Fin (- 4), Fin 0, Fin 1)) = Fin (sqrt (- (- 4) / 1))"
    using T h1 by blast
  have c3: "\<exists>x :: real. fst (solveQuadratic (Fin 24, Fin (- 10), Fin 1)) = Fin x
         \<and> 1 * x\<^sup>2 + (- 10) * x + 24 = 0 \<and> (\<forall>y. 1 * y\<^sup>2 + (- 10) * y + 24 = 0 \<longrightarrow> y \<le> x)"
    using T h2 by blast
  have c4: "\<exists>q. solve_coefficients (EikonalSolver [Fin 1] (Fin 1)) [0] (offsets 1)
            (Grid [2] [Fin 0, Fin 5]) (Grid [2] [Far, Frozen]) = Inr q
          \<and> Fin 6 = fst (solveQuadratic q)"
    using T solve_example by blast
  show ?thesis
    using c1 c2 c3 c4 h1 h2 solve_example solveQuadratic_example by simp
qed

section \<open>The coefficients of solve (C1)\<close>

text \<open>
  The assembly in the words of the claim. \<open>axis_neighbors\<close> are \<open>index + e_i\<close> and
  \<open>index - e_i\<close>; a neighbor qualifies when it is inside the grid and frozen, and when
  its distance passes \<open>ok\<close>. With \<open>ok = (\<lambda>_. True)\<close> this is the claim as stated; with
  \<open>ok = below_max\<close> a frozen neighbor qualifies only with a distance strictly below
  \<open>numeric_limits<T>::max()\<close>.
\<close>


definition axis_neighbors :: "int list \<Rightarrow> nat \<Rightarrow> int list list" where
  "axis_neighbors index i = [index[i := index ! i + 1], index[i := index ! i - 1]]"

definition qualifying_distances ::
  "(fl \<Rightarrow> bool) \<Rightarrow> fl grid \<Rightarrow> CellState grid \<Rightarrow> int list \<Rightarrow> nat \<Rightarrow> fl list" where
  "qualifying_distances ok dg sg index i =
     filter ok (map (\<lambda>n. g_cells dg ! linear_offset dg n)
       (filter (\<lambda>n. inside n (g_size dg) \<and> g_cells sg ! linear_offset sg n = Frozen)
          (axis_neighbors index i)))"

definition accumulate_axis :: "fl \<Rightarrow> fl \<Rightarrow> fl \<times> fl \<times> fl \<Rightarrow> fl \<times> fl \<times> fl" where
  "accumulate_axis u w q =
     (fadd (fst q) (fmul (fmul u u) w),
      fadd (fst (snd q)) (fmul (fmul (Fin (- 2)) u) w),
      fadd (snd (snd q)) w)"

definition claimed_axis ::
  "(fl \<Rightarrow> bool) \<Rightarrow> EikonalSolver_rec \<Rightarrow> fl grid \<Rightarrow> CellState grid \<Rightarrow> int list \<Rightarrow> nat
     \<Rightarrow> fl \<times> fl \<times> fl \<Rightarrow> fl \<times> fl \<times> fl" where
  "claimed_axis ok es dg sg index i q =
     (case qualifying_distances ok dg sg index i of
        [] \<Rightarrow> q
      | [u] \<Rightarrow> accumulate_axis u (inv_dx_squared es ! i) q
      | u # v # _ \<Rightarrow> accumulate_axis (if fless v u then v else u) (inv_dx_squared es ! i) q)"

definition claimed_coefficients ::
  "(fl \<Rightarrow> bool) \<Rightarrow> EikonalSolver_rec \<Rightarrow> fl grid \<Rightarrow> CellState grid \<Rightarrow> int list
     \<Rightarrow> fl \<times> fl \<times> fl" where
  "claimed_coefficients ok es dg sg index =
     fold (claimed_axis ok es dg sg index) [0..<length index]
       (fneg (inv_speed_squared es), Fin 0, Fin 0)"

definition below_max :: "fl \<Rightarrow> bool" where
  "below_max d = fless d numeric_limits_max"

lemma frozen_neighbor_step_ok:
  assumes "grid_ok dg" "grid_ok sg" "g_size sg = g_size dg" "index \<noteq> []"
    "length offset = length index"
  shows "frozen_neighbor_step dg sg index offset m =
     Inr (let n = add_offset index offset
          in if inside n (g_size dg) \<and> g_cells sg ! linear_offset sg n = Frozen
             then std_min m (g_cells dg ! linear_offset dg n) else m)"
proof -
  have "add_offset index offset \<noteq> []" using assms(4,5) by (cases index; cases offset) (auto simp: add_offset_def)
  then show ?thesis
    using assms(1-3) by (auto simp: frozen_neighbor_step_def Let_def cell_inside)
qed

lemma solve_axis_claimed:
  assumes "grid_ok dg" "grid_ok sg" "g_size sg = g_size dg" "i < length index"
  shows "solve_axis es index (offsets (length index)) dg sg i q
           = Inr (claimed_axis below_max es dg sg index i q)"
proof -
  have ne: "index \<noteq> []" using assms(4) by auto
  have len: "length (unit_offset (length index) i v) = length index" for v
    by (simp add: unit_offset_def)
  define n0 where "n0 = index[i := index ! i + 1]"
  define n1 where "n1 = index[i := index ! i - 1]"
  define q0 where "q0 \<longleftrightarrow> inside n0 (g_size dg) \<and> g_cells sg ! linear_offset sg n0 = Frozen"
  define q1 where "q1 \<longleftrightarrow> inside n1 (g_size dg) \<and> g_cells sg ! linear_offset sg n1 = Frozen"
  define d0 where "d0 = g_cells dg ! linear_offset dg n0"
  define d1 where "d1 = g_cells dg ! linear_offset dg n1"
  have s0: "frozen_neighbor_step dg sg index (offsets (length index) ! (2 * i + 0)) m
              = Inr (if q0 then std_min m d0 else m)" for m
    by (simp add: offsets_nth[OF assms(4)] frozen_neighbor_step_ok[OF assms(1-3) ne len]
        add_unit_offset n0_def q0_def d0_def Let_def)
  have s1: "frozen_neighbor_step dg sg index (offsets (length index) ! (2 * i + 1)) m
              = Inr (if q1 then std_min m d1 else m)" for m
    using offsets_nth(2)[OF assms(4)]
    by (simp add: frozen_neighbor_step_ok[OF assms(1-3) ne len]
        add_unit_offset n1_def q1_def d1_def Let_def)
  have qd: "qualifying_distances below_max dg sg index i
              = filter below_max ((if q0 then [d0] else []) @ (if q1 then [d1] else []))"
    by (simp add: qualifying_distances_def axis_neighbors_def n0_def n1_def q0_def q1_def
        d0_def d1_def)
  have tr: "fless d1 d0 \<Longrightarrow> below_max d0 \<Longrightarrow> below_max d1"
    unfolding below_max_def by (rule fless_trans)
  show ?thesis
    unfolding solve_axis_def s0 s1 claimed_axis_def qd
    using tr
    by (auto simp add: below_max_def std_min_def accumulate_axis_def squared_def)
qed

lemma solve_coefficients_claimed:
  assumes "grid_ok dg" "grid_ok sg" "g_size sg = g_size dg"
  shows "solve_coefficients es index (offsets (length index)) dg sg
           = Inr (claimed_coefficients below_max es dg sg index)"
  unfolding solve_coefficients_def claimed_coefficients_def
  by (rule foldE_total) (simp add: solve_axis_claimed[OF assms])


text \<open>
  C1 (amended). On grids built by the constructor, the coefficients that \<open>solve\<close>
  assembles are: start from \<open>(-1/F^2, 0, 0)\<close>; for each axis take the neighbors
  \<open>index +/- e_i\<close> that are inside the grid, frozen and hold a distance strictly below
  \<open>numeric_limits<T>::max()\<close>; with none the axis adds nothing, with one its distance
  \<open>u\<close> is used, with two the smaller; then \<open>c += u^2 * inv_dx_squared[i]\<close>,
  \<open>b += -2u * inv_dx_squared[i]\<close>, \<open>a += inv_dx_squared[i]\<close>.
\<close>

theorem solve_coefficients_amended:
  assumes "grid_ok dg" "grid_ok sg" "g_size sg = g_size dg"
  shows "solve_coefficients es index (offsets (length index)) dg sg
           = Inr (claimed_coefficients below_max es dg sg index)"
  using assms by (rule solve_coefficients_claimed)

theorem solve_coefficients_amended_witness:
  "grid_ok (Grid [2] [Fin 0, Fin 5]) \<and> grid_ok (Grid [2] [Far, Frozen])
   \<and> g_size (Grid [2] [Far, Frozen]) = g_size (Grid [2] [Fin 0, Fin 5])
   \<and> solve_coefficients (EikonalSolver [Fin 1] (Fin 1)) [0] (offsets (length [0 :: int]))
        (Grid [2] [Fin 0, Fin 5]) (Grid [2] [Far, Frozen])
      = Inr (claimed_coefficients below_max (EikonalSolver [Fin 1] (Fin 1))
               (Grid [2] [Fin 0, Fin 5]) (Grid [2] [Far, Frozen]) [0])
   \<and> claimed_coefficients below_max (EikonalSolver [Fin 1] (Fin 1))
        (Grid [2] [Fin 0, Fin 5]) (Grid [2] [Far, Frozen]) [0] = (Fin 24, Fin (- 10), Fin 1)"
proof -
  have g: "grid_ok (Grid [2] [Fin 0, Fin 5])" "grid_ok (Grid [2] [Far, Frozen])"
    "g_size (Grid [2] [Far, Frozen]) = g_size (Grid [2] [Fin 0, Fin 5])"
    by (simp_all add: grid_ok_def Grid_def linearSize_def)
  from solve_coefficients_amended[OF g, of "EikonalSolver [Fin 1] (Fin 1)" "[0]"]
  show ?thesis using g solve_coefficients_example by simp
qed

text \<open>As stated the claim fails where a frozen neighbor holds
  \<open>numeric_limits<T>::max()\<close>: the claim adds its axis, \<open>solve\<close> skips it.\<close>

theorem solve_coefficients_sentinel_counterexample:
  "solve_coefficients (EikonalSolver [Fin 1] (Fin 1)) [0] (offsets 1)
      (Grid [2] [Fin 0, numeric_limits_max]) (Grid [2] [Far, Frozen])
   \<noteq> Inr (claimed_coefficients (\<lambda>_. True) (EikonalSolver [Fin 1] (Fin 1))
            (Grid [2] [Fin 0, numeric_limits_max]) (Grid [2] [Far, Frozen]) [0])"
  by (simp add: claimed_coefficients_def claimed_axis_def qualifying_distances_def
      axis_neighbors_def accumulate_axis_def solver_eval)

section \<open>Failures of the narrow-band store leave it unchanged (C10)\<close>

lemma swap_pos_error: "swap_pos p0 p1 h = (Inl e, h') \<Longrightarrow> e = AssertionFailed"
  by (auto simp: swap_pos_def Let_def split: if_splits)

lemma sift_up_error: "sift_up pos h = (Inl e, h') \<Longrightarrow> e = AssertionFailed"
proof (induction pos h rule: sift_up.induct)
  case (1 pos h)
  show ?case
    using "1.prems" "1.IH"
    by (subst (asm) sift_up.simps)
       (auto simp: parent_pos_def dest: swap_pos_error split: if_splits sum.splits prod.splits)
qed

lemma sift_down_error: "sift_down pos h = (Inl e, h') \<Longrightarrow> e = AssertionFailed"
proof (induction pos h rule: sift_down.induct)
  case (1 pos h)
  show ?case
    using "1.prems" "1.IH"
    by (subst (asm) sift_down.simps)
       (auto simp: Let_def dest: swap_pos_error split: if_splits sum.splits prod.splits)
qed

lemma sift_up_error_fst: "fst (sift_up pos h) = Inl e \<Longrightarrow> e = AssertionFailed"
  by (cases "sift_up pos h") (auto dest: sift_up_error)

lemma sift_down_error_fst: "fst (sift_down pos h) = Inl e \<Longrightarrow> e = AssertionFailed"
  by (cases "sift_down pos h") (auto dest: sift_down_error)

lemma nb_empty_error: "nb_empty h = Inl e \<Longrightarrow> e = AssertionFailed"
  by (auto simp: nb_empty_def split: if_splits)

lemma pop_CannotPopEmpty:
  "fst (pop h) = Inl CannotPopEmpty \<Longrightarrow> nb_empty h = Inr True"
  by (auto simp: pop_def Let_def
        dest: sift_down_error swap_pos_error nb_empty_error
        split: if_splits sum.splits prod.splits bool.splits)

text \<open>
  C10. When \<open>insert\<close> throws "index must be unique", \<open>pop\<close> throws "cannot pop empty
  narrow band store", or \<open>decrease_distance\<close> / \<open>increase_distance\<close> throw "index not
  found" or "new distance must be less / greater than existing distance", the store
  (the vector and the index-to-position map) is exactly as it was before the call.
\<close>

theorem narrow_band_failure_atomic:
  "(fst (insert_value v h) = Inl IndexMustBeUnique \<longrightarrow> snd (insert_value v h) = h)
   \<and> (fst (pop h) = Inl CannotPopEmpty \<longrightarrow> snd (pop h) = h)
   \<and> (fst (decrease_distance i d h) = Inl IndexNotFound
        \<or> fst (decrease_distance i d h) = Inl NewDistanceMustBeLess
      \<longrightarrow> snd (decrease_distance i d h) = h)
   \<and> (fst (increase_distance i d h) = Inl IndexNotFound
        \<or> fst (increase_distance i d h) = Inl NewDistanceMustBeGreater
      \<longrightarrow> snd (increase_distance i d h) = h)"
proof (intro conjI impI)
  assume "fst (insert_value v h) = Inl IndexMustBeUnique"
  then show "snd (insert_value v h) = h"
    by (auto simp: insert_value_def Let_def dest: sift_up_error_fst split: if_splits)
next
  assume "fst (pop h) = Inl CannotPopEmpty"
  from pop_CannotPopEmpty[OF this] show "snd (pop h) = h"
    by (simp add: pop_def)
next
  assume "fst (decrease_distance i d h) = Inl IndexNotFound
        \<or> fst (decrease_distance i d h) = Inl NewDistanceMustBeLess"
  then show "snd (decrease_distance i d h) = h"
    by (auto simp: decrease_distance_def dest: sift_up_error_fst
        split: if_splits option.splits)
next
  assume "fst (increase_distance i d h) = Inl IndexNotFound
        \<or> fst (increase_distance i d h) = Inl NewDistanceMustBeGreater"
  then show "snd (increase_distance i d h) = h"
    by (auto simp: increase_distance_def dest: sift_down_error_fst
        split: if_splits option.splits)
qed

theorem narrow_band_failure_atomic_witness:
  "fst (insert_value (Fin 2, [0]) \<lparr>nb_values = [(Fin 1, [0])], nb_index_to_pos = [([0], 0)]\<rparr>)
     = Inl IndexMustBeUnique
   \<and> snd (insert_value (Fin 2, [0]) \<lparr>nb_values = [(Fin 1, [0])], nb_index_to_pos = [([0], 0)]\<rparr>)
     = \<lparr>nb_values = [(Fin 1, [0])], nb_index_to_pos = [([0], 0)]\<rparr>
   \<and> fst (pop NarrowBandStore) = Inl CannotPopEmpty
   \<and> snd (pop NarrowBandStore) = NarrowBandStore
   \<and> fst (decrease_distance [0] (Fin 3)
            \<lparr>nb_values = [(Fin 1, [0])], nb_index_to_pos = [([0], 0)]\<rparr>)
     = Inl NewDistanceMustBeLess
   \<and> snd (decrease_distance [0] (Fin 3)
            \<lparr>nb_values = [(Fin 1, [0])], nb_index_to_pos = [([0], 0)]\<rparr>)
     = \<lparr>nb_values = [(Fin 1, [0])], nb_index_to_pos = [([0], 0)]\<rparr>
   \<and> fst (increase_distance [7] (Fin 3)
            \<lparr>nb_values = [(Fin 1, [0])], nb_index_to_pos = [([0], 0)]\<rparr>)
     = Inl IndexNotFound
   \<and> snd (increase_distance [7] (Fin 3)
            \<lparr>nb_values = [(Fin 1, [0])], nb_index_to_pos = [([0], 0)]\<rparr>)
     = \<lparr>nb_values = [(Fin 1, [0])], nb_index_to_pos = [([0], 0)]\<rparr>"
proof -
  let ?h = "\<lparr>nb_values = [(Fin 1, [0])], nb_index_to_pos = [([0], 0)]\<rparr>"
  have f1: "fst (insert_value (Fin 2, [0]) ?h) = Inl IndexMustBeUnique"
    by (simp add: insert_value_def)
  have f2: "fst (pop NarrowBandStore) = Inl CannotPopEmpty"
    by (simp add: pop_def nb_empty_def NarrowBandStore_def)
  have f3: "fst (decrease_distance [0] (Fin 3) ?h) = Inl NewDistanceMustBeLess"
    by (simp add: decrease_distance_def)
  have f4: "fst (increase_distance [7] (Fin 3) ?h) = Inl IndexNotFound"
    by (simp add: increase_distance_def)
  from narrow_band_failure_atomic[of "(Fin 2, [0])" ?h "[0]" "Fin 3"] f1 f3
  have a: "snd (insert_value (Fin 2, [0]) ?h) = ?h"
    "snd (decrease_distance [0] (Fin 3) ?h) = ?h" by simp_all
  from narrow_band_failure_atomic[of "(Fin 2, [0])" NarrowBandStore "[0]" "Fin 3"] f2
  have b: "snd (pop NarrowBandStore) = NarrowBandStore" by simp
  from narrow_band_failure_atomic[of "(Fin 2, [0])" ?h "[7]" "Fin 3"] f4
  have c: "snd (increase_distance [7] (Fin 3) ?h) = ?h" by simp
  show ?thesis using f1 f2 f3 f4 a b c by simp
qed

section \<open>The invariants of the narrow-band store (C3)\<close>

text \<open>
  (I1) is \<open>heap_ordered\<close>: no entry is below its parent. (I2) is \<open>index_ok\<close>: the map
  has one entry per key and as many entries as the vector has elements, it sends the
  index stored at every position to that position, and it has no other entry.
\<close>

definition heap_ordered :: "NarrowBandStore_rec \<Rightarrow> bool" where
  "heap_ordered h \<longleftrightarrow>
     (\<forall>p. 0 < p \<and> p < length (nb_values h) \<longrightarrow>
        fle (fst (nb_values h ! ((p - 1) div 2))) (fst (nb_values h ! p)))"

definition index_ok :: "NarrowBandStore_rec \<Rightarrow> bool" where
  "index_ok h \<longleftrightarrow>
     distinct (map fst (nb_index_to_pos h))
     \<and> length (nb_index_to_pos h) = length (nb_values h)
     \<and> (\<forall>p < length (nb_values h).
          map_of (nb_index_to_pos h) (snd (nb_values h ! p)) = Some p)
     \<and> (\<forall>k p. map_of (nb_index_to_pos h) k = Some p \<longrightarrow>
          p < length (nb_values h) \<and> snd (nb_values h ! p) = k)"

definition no_nan :: "NarrowBandStore_rec \<Rightarrow> bool" where
  "no_nan h \<longleftrightarrow> (\<forall>v \<in> set (nb_values h). fst v \<noteq> NaN)"

lemma fle_trans: "fle a b \<Longrightarrow> fle b c \<Longrightarrow> fle a c"
  by (cases a; cases b; cases c) auto

lemma fless_imp_fle: "fless a b \<Longrightarrow> fle a b"
  by (cases a; cases b) auto

lemma not_fless_imp_fle: "a \<noteq> NaN \<Longrightarrow> b \<noteq> NaN \<Longrightarrow> \<not> fless a b \<Longrightarrow> fle b a"
  by (cases a; cases b) auto

lemma not_fle_imp_fless: "a \<noteq> NaN \<Longrightarrow> b \<noteq> NaN \<Longrightarrow> \<not> fle a b \<Longrightarrow> fless b a"
  by (cases a; cases b) auto

lemma index_ok_inj:
  "index_ok h \<Longrightarrow> p < length (nb_values h) \<Longrightarrow> q < length (nb_values h)
     \<Longrightarrow> snd (nb_values h ! p) = snd (nb_values h ! q) \<Longrightarrow> p = q"
  unfolding index_ok_def by (metis option.inject)

lemma index_ok_distinct: "index_ok h \<Longrightarrow> distinct (map snd (nb_values h))"
  by (auto simp: distinct_conv_nth dest: index_ok_inj)

lemma map_of_in_keys: "map_of al k = Some p \<Longrightarrow> k \<in> fst ` set al"
  by (metis domI dom_map_of_conv_image_fst)

lemma length_alist_update:
  "length (AList.update k v al) = (if k \<in> fst ` set al then length al else Suc (length al))"
  by (induction al) auto

lemma length_alist_delete:
  "distinct (map fst al) \<Longrightarrow> k \<in> fst ` set al
     \<Longrightarrow> Suc (length (AList.delete k al)) = length al"
  by (induction al) (auto simp: image_iff)

lemma swap_pos_ok:
  assumes ok: "index_ok h" and p0: "p0 < length (nb_values h)" and p1: "p1 < length (nb_values h)"
  obtains h' where "swap_pos p0 p1 h = (Inr (), h')"
    "nb_values h' = (nb_values h)[p0 := nb_values h ! p1, p1 := nb_values h ! p0]"
    "index_ok h'"
proof -
  let ?vs = "nb_values h" and ?al = "nb_index_to_pos h"
  let ?k0 = "snd (?vs ! p0)" and ?k1 = "snd (?vs ! p1)"
  let ?h' = "\<lparr>nb_values = ?vs[p0 := ?vs ! p1, p1 := ?vs ! p0],
              nb_index_to_pos = AList.update ?k1 p0 (AList.update ?k0 p1 ?al)\<rparr>"
  have m0: "map_of ?al ?k0 = Some p0" and m1: "map_of ?al ?k1 = Some p1"
    using ok p0 p1 by (auto simp: index_ok_def)
  have sw: "swap_pos p0 p1 h = (Inr (), ?h')"
    using p0 p1 m0 m1 by (simp add: swap_pos_def Let_def)
  have mp: "map_of (nb_index_to_pos ?h') = (map_of ?al)(?k0 \<mapsto> p1, ?k1 \<mapsto> p0)"
    by (simp add: update_conv')
  have len: "length (nb_index_to_pos ?h') = length ?al"
    using map_of_in_keys[OF m0] map_of_in_keys[OF m1] by (simp add: length_alist_update dom_update)
  have inj: "\<And>p q. p < length ?vs \<Longrightarrow> q < length ?vs \<Longrightarrow> snd (?vs ! p) = snd (?vs ! q) \<Longrightarrow> p = q"
    using index_ok_inj[OF ok] by blast
  have fwd: "\<forall>p < length (nb_values ?h'). map_of (nb_index_to_pos ?h') (snd (nb_values ?h' ! p)) = Some p"
  proof (intro allI impI)
    fix p assume "p < length (nb_values ?h')"
    then have p: "p < length ?vs" by simp
    have "map_of ?al (snd (?vs ! p)) = Some p" using ok p by (simp add: index_ok_def)
    then show "map_of (nb_index_to_pos ?h') (snd (nb_values ?h' ! p)) = Some p"
      unfolding mp using p p0 p1 inj[of p p0] inj[of p p1] inj[of p0 p1]
      by (auto simp: nth_list_update)
  qed
  have bwd: "\<forall>k p. map_of (nb_index_to_pos ?h') k = Some p \<longrightarrow>
          p < length (nb_values ?h') \<and> snd (nb_values ?h' ! p) = k"
  proof (intro allI impI)
    fix k p assume a: "map_of (nb_index_to_pos ?h') k = Some p"
    have old: "\<And>k p. map_of ?al k = Some p \<Longrightarrow> p < length ?vs \<and> snd (?vs ! p) = k"
      using ok by (simp add: index_ok_def)
    show "p < length (nb_values ?h') \<and> snd (nb_values ?h' ! p) = k"
      using a p0 p1 old[of k p] unfolding mp
      by (auto simp: nth_list_update split: if_splits)
  qed
  have "index_ok ?h'"
    unfolding index_ok_def using fwd bwd len ok
    by (simp add: index_ok_def distinct_update)
  with sw show ?thesis using that by simp
qed


definition up_pre :: "NarrowBandStore_rec \<Rightarrow> nat \<Rightarrow> bool" where
  "up_pre h pos \<longleftrightarrow>
     index_ok h \<and> no_nan h \<and> pos < length (nb_values h)
     \<and> (\<forall>p. 0 < p \<and> p < length (nb_values h) \<and> p \<noteq> pos \<longrightarrow>
          fle (fst (nb_values h ! ((p - 1) div 2))) (fst (nb_values h ! p)))
     \<and> (\<forall>c. 0 < pos \<and> 0 < c \<and> c < length (nb_values h) \<and> (c - 1) div 2 = pos \<longrightarrow>
          fle (fst (nb_values h ! ((pos - 1) div 2))) (fst (nb_values h ! c)))"

definition heap_result :: "NarrowBandStore_rec \<Rightarrow> (error + unit) \<times> NarrowBandStore_rec \<Rightarrow> bool" where
  "heap_result h r \<longleftrightarrow>
     fst r = Inr () \<and> index_ok (snd r) \<and> no_nan (snd r) \<and> heap_ordered (snd r)
     \<and> mset (nb_values (snd r)) = mset (nb_values h)"

lemma no_nan_nth: "no_nan h \<Longrightarrow> p < length (nb_values h) \<Longrightarrow> fst (nb_values h ! p) \<noteq> NaN"
  by (simp add: no_nan_def)

lemma no_nan_mset:
  "mset (nb_values h') = mset (nb_values h) \<Longrightarrow> no_nan h \<Longrightarrow> no_nan h'"
  unfolding no_nan_def by (metis mset_eq_setD)

lemma parent_lt: "0 < (p::nat) \<Longrightarrow> (p - 1) div 2 < p"
  by presburger

lemma up_pre_swap:
  assumes pre: "up_pre h pos" and pos: "0 < pos"
    and lt: "fless (fst (nb_values h ! pos)) (fst (nb_values h ! ((pos - 1) div 2)))"
    and vs': "nb_values h' = (nb_values h)[pos := nb_values h ! ((pos - 1) div 2),
                 (pos - 1) div 2 := nb_values h ! pos]"
    and ok': "index_ok h'"
  shows "up_pre h' ((pos - 1) div 2)"
proof -
  let ?vs = "nb_values h" and ?pp = "(pos - 1) div 2"
  let ?d = "\<lambda>p. fst (?vs ! p)" and ?d' = "\<lambda>p. fst (nb_values h' ! p)"
  have n: "pos < length ?vs" using pre by (simp add: up_pre_def)
  have pp: "?pp < pos" using pos by (rule parent_lt)
  have c1: "\<And>p. 0 < p \<Longrightarrow> p < length ?vs \<Longrightarrow> p \<noteq> pos \<Longrightarrow> fle (?d ((p - 1) div 2)) (?d p)"
    and c2: "\<And>c. 0 < c \<Longrightarrow> c < length ?vs \<Longrightarrow> (c - 1) div 2 = pos \<Longrightarrow> fle (?d ?pp) (?d c)"
    using pre pos by (auto simp: up_pre_def)
  have d': "\<And>p. p < length ?vs \<Longrightarrow>
      ?d' p = (if p = ?pp then ?d pos else if p = pos then ?d ?pp else ?d p)"
    using n pp by (auto simp: vs' nth_list_update)
  have len: "length (nb_values h') = length ?vs" by (simp add: vs')
  have ms: "mset (nb_values h') = mset ?vs"
    using n pp by (simp add: vs' mset_swap)
  have a1: "fle (?d' ((p - 1) div 2)) (?d' p)"
    if p: "0 < p" "p < length ?vs" "p \<noteq> ?pp" for p
  proof -
    have q: "(p - 1) div 2 < length ?vs" using parent_lt[OF p(1)] p(2) by simp
    consider "p = pos" | "p \<noteq> pos" "(p - 1) div 2 = ?pp" | "p \<noteq> pos" "(p - 1) div 2 = pos"
      | "p \<noteq> pos" "(p - 1) div 2 \<noteq> ?pp" "(p - 1) div 2 \<noteq> pos" by blast
    then show ?thesis
    proof cases
      case 1
      then show ?thesis using d'[of pos] d'[of ?pp] n pp lt by (simp add: fless_imp_fle)
    next
      case 2
      have "fle (?d pos) (?d ?pp)" using lt by (rule fless_imp_fle)
      moreover have "fle (?d ?pp) (?d p)" using c1[of p] p 2 by simp
      ultimately have "fle (?d pos) (?d p)" by (rule fle_trans)
      then show ?thesis using d'[of p] d'[of ?pp] p 2 q by simp
    next
      case 3
      then show ?thesis using d'[of p] d'[of pos] p n pp c2[of p] by auto
    next
      case 4
      then show ?thesis using d'[of p] d'[OF q] p c1[of p] by simp
    qed
  qed
  have a2: "fle (?d' ((?pp - 1) div 2)) (?d' c)"
    if c: "0 < ?pp" "0 < c" "c < length ?vs" "(c - 1) div 2 = ?pp" for c
  proof -
    have gp: "(?pp - 1) div 2 < ?pp" using c(1) by (rule parent_lt)
    then have g: "?d' ((?pp - 1) div 2) = ?d ((?pp - 1) div 2)"
      using d'[of "(?pp - 1) div 2"] n pp by auto
    have gpp: "fle (?d ((?pp - 1) div 2)) (?d ?pp)" using c1[of ?pp] c n pp by auto
    show ?thesis
    proof (cases "c = pos")
      case True
      then show ?thesis using g gpp d'[of pos] n pp by auto
    next
      case False
      have "c \<noteq> ?pp" using parent_lt[OF c(2)] c(4) by simp
      moreover have "fle (?d ?pp) (?d c)" using c1[of c] c False by simp
      ultimately show ?thesis using g fle_trans[OF gpp] d'[of c] c False by auto
    qed
  qed
  show ?thesis
    unfolding up_pre_def len
    using ok' no_nan_mset[OF ms] pre n pp a1 a2 by (auto simp: up_pre_def)
qed

lemma sift_up_ok: "up_pre h pos \<Longrightarrow> heap_result h (sift_up pos h)"
proof (induction pos h rule: sift_up.induct)
  case (1 pos h)
  let ?vs = "nb_values h" and ?pp = "(pos - 1) div 2"
  have n: "pos < length ?vs" and ok: "index_ok h" and nn: "no_nan h"
    using "1.prems" by (auto simp: up_pre_def)
  have c1: "\<And>p. 0 < p \<Longrightarrow> p < length ?vs \<Longrightarrow> p \<noteq> pos
      \<Longrightarrow> fle (fst (?vs ! ((p - 1) div 2))) (fst (?vs ! p))"
    using "1.prems" by (auto simp: up_pre_def)
  show ?case
  proof (cases "pos = 0")
    case True
    then have "sift_up pos h = (Inr (), h)" using n by (subst sift_up.simps) simp
    moreover have "heap_ordered h" using c1 True by (auto simp: heap_ordered_def)
    ultimately show ?thesis using ok nn by (simp add: heap_result_def)
  next
    case False
    then have pp: "?pp < pos" "parent_pos pos = Inr ?pp"
      using parent_lt[of pos] by (auto simp: parent_pos_def)
    have ppn: "?pp < length ?vs" using pp n by simp
    show ?thesis
    proof (cases "fless (fst (?vs ! pos)) (fst (?vs ! ?pp))")
      case True
      obtain h' where sw: "swap_pos pos ?pp h = (Inr (), h')"
        and vs': "nb_values h' = ?vs[pos := ?vs ! ?pp, ?pp := ?vs ! pos]" and ok': "index_ok h'"
        using swap_pos_ok[OF ok n ppn] by blast
      have pre': "up_pre h' ?pp"
        using up_pre_swap[OF "1.prems" _ True vs' ok'] False by simp
      have "heap_result h' (sift_up ?pp h')"
        using "1.IH"[OF _ False pp(2) _ True sw[symmetric] refl pre'] n ppn by simp
      moreover have "mset (nb_values h') = mset ?vs" using n ppn by (simp add: vs' mset_swap)
      moreover have "sift_up pos h = sift_up ?pp h'"
        using n False pp ppn True sw by (subst sift_up.simps) simp
      ultimately show ?thesis by (simp add: heap_result_def)
    next
      case nlt: False
      have "sift_up pos h = (Inr (), h)"
        using n False pp ppn nlt by (subst sift_up.simps) simp
      moreover have "fle (fst (?vs ! ?pp)) (fst (?vs ! pos))"
        using nlt no_nan_nth[OF nn n] no_nan_nth[OF nn ppn] by (intro not_fless_imp_fle)
      then have "heap_ordered h" using c1 unfolding heap_ordered_def by metis
      ultimately show ?thesis using ok nn by (simp add: heap_result_def)
    qed
  qed
qed


definition down_pre :: "NarrowBandStore_rec \<Rightarrow> nat \<Rightarrow> bool" where
  "down_pre h pos \<longleftrightarrow>
     index_ok h \<and> no_nan h \<and> pos < length (nb_values h)
     \<and> (\<forall>p. 0 < p \<and> p < length (nb_values h) \<and> (p - 1) div 2 \<noteq> pos \<longrightarrow>
          fle (fst (nb_values h ! ((p - 1) div 2))) (fst (nb_values h ! p)))
     \<and> (\<forall>c. 0 < pos \<and> 0 < c \<and> c < length (nb_values h) \<and> (c - 1) div 2 = pos \<longrightarrow>
          fle (fst (nb_values h ! ((pos - 1) div 2))) (fst (nb_values h ! c)))"

lemma child_iff: "0 < c \<and> (c - 1) div 2 = pos \<longleftrightarrow> c = 2 * pos + 1 \<or> c = 2 * pos + 2" for c :: nat
  by presburger

lemma down_pre_swap:
  assumes pre: "down_pre h pos" and m: "m = 2 * pos + 1 \<or> m = 2 * pos + 2"
    and mn: "m < length (nb_values h)"
    and lt: "fless (fst (nb_values h ! m)) (fst (nb_values h ! pos))"
    and other: "\<And>c. c < length (nb_values h) \<Longrightarrow> c = 2 * pos + 1 \<or> c = 2 * pos + 2
                  \<Longrightarrow> fle (fst (nb_values h ! m)) (fst (nb_values h ! c))"
    and vs': "nb_values h' = (nb_values h)[m := nb_values h ! pos, pos := nb_values h ! m]"
    and ok': "index_ok h'"
  shows "down_pre h' m"
proof -
  let ?vs = "nb_values h"
  let ?d = "\<lambda>p. fst (?vs ! p)" and ?d' = "\<lambda>p. fst (nb_values h' ! p)"
  have n: "pos < length ?vs" using pre by (simp add: down_pre_def)
  have pm: "pos < m" "(m - 1) div 2 = pos" "0 < m" using m by auto
  have c1: "\<And>p. 0 < p \<Longrightarrow> p < length ?vs \<Longrightarrow> (p - 1) div 2 \<noteq> pos
      \<Longrightarrow> fle (?d ((p - 1) div 2)) (?d p)"
    and c2: "\<And>c. 0 < pos \<Longrightarrow> 0 < c \<Longrightarrow> c < length ?vs \<Longrightarrow> (c - 1) div 2 = pos
      \<Longrightarrow> fle (?d ((pos - 1) div 2)) (?d c)"
    using pre by (auto simp: down_pre_def)
  have d': "\<And>p. p < length ?vs \<Longrightarrow>
      ?d' p = (if p = pos then ?d m else if p = m then ?d pos else ?d p)"
    using n mn pm by (auto simp: vs' nth_list_update)
  have len: "length (nb_values h') = length ?vs" by (simp add: vs')
  have ms: "mset (nb_values h') = mset ?vs"
    using n mn by (simp add: vs' mset_swap)
  have a1: "fle (?d' ((p - 1) div 2)) (?d' p)"
    if p: "0 < p" "p < length ?vs" "(p - 1) div 2 \<noteq> m" for p
  proof -
    have q: "(p - 1) div 2 < length ?vs" "(p - 1) div 2 < p" using parent_lt[OF p(1)] p(2) by simp_all
    consider "(p - 1) div 2 = pos" "p = m" | "(p - 1) div 2 = pos" "p \<noteq> m"
      | "(p - 1) div 2 \<noteq> pos" "p = pos" | "(p - 1) div 2 \<noteq> pos" "p \<noteq> pos" by blast
    then show ?thesis
    proof cases
      case 1
      then show ?thesis using d'[of pos] d'[of m] n mn pm lt by (simp add: fless_imp_fle)
    next
      case 2
      then have "p = 2 * pos + 1 \<or> p = 2 * pos + 2" using child_iff[of p pos] p by simp
      from other[OF p(2) this] show ?thesis using d'[of p] d'[of pos] p n 2 q by auto
    next
      case 3
      then have "0 < pos" using p by simp
      from c2[OF this pm(3) mn pm(2)] show ?thesis
        using d'[of pos] d'[OF q(1)] n 3 q p pm by auto
    next
      case 4
      have "p \<noteq> m" using 4 pm by auto
      then show ?thesis using d'[of p] d'[OF q(1)] p 4 c1[of p] by simp
    qed
  qed
  have a2: "fle (?d' ((m - 1) div 2)) (?d' c)"
    if c: "0 < c" "c < length ?vs" "(c - 1) div 2 = m" for c
  proof -
    have "m < c" using parent_lt[OF c(1)] c(3) by simp
    then have "c \<noteq> pos" "c \<noteq> m" using pm by auto
    moreover have "fle (?d m) (?d c)" using c1[of c] c pm by simp
    ultimately show ?thesis using d'[of c] d'[of pos] pm n c by simp
  qed
  show ?thesis
    unfolding down_pre_def len
    using ok' no_nan_mset[OF ms] pre mn a1 a2 by (auto simp: down_pre_def)
qed


lemma sift_down_ok: "down_pre h pos \<Longrightarrow> heap_result h (sift_down pos h)"
proof (induction pos h rule: sift_down.induct)
  case (1 pos h)
  let ?vs = "nb_values h"
  let ?d = "\<lambda>p. fst (?vs ! p)"
  let ?L = "left_child_pos pos" and ?R = "right_child_pos pos"
  define m where "m = (if ?R \<le> length ?vs - 1
        \<and> fless (?d ?R) (if fless (?d ?L) (?d pos) then ?d ?L else ?d pos)
      then ?R else if fless (?d ?L) (?d pos) then ?L else pos)"
  have n: "pos < length ?vs" and ok: "index_ok h" and nn: "no_nan h"
    using "1.prems" by (auto simp: down_pre_def)
  have c1: "\<And>p. 0 < p \<Longrightarrow> p < length ?vs \<Longrightarrow> (p - 1) div 2 \<noteq> pos
      \<Longrightarrow> fle (?d ((p - 1) div 2)) (?d p)"
    using "1.prems" by (auto simp: down_pre_def)
  have LR: "?L = 2 * pos + 1" "?R = 2 * pos + 2"
    by (simp_all add: left_child_pos_def right_child_pos_def)
  show ?case
  proof (cases "?L > length ?vs - 1")
    case True
    then have "sift_down pos h = (Inr (), h)"
      using n by (subst sift_down.simps) (simp add: Let_def LR)
    moreover have "heap_ordered h"
      unfolding heap_ordered_def
    proof (intro allI impI)
      fix p assume p: "0 < p \<and> p < length ?vs"
      then have "(p - 1) div 2 \<noteq> pos" using True child_iff[of p pos] LR by auto
      then show "fle (?d ((p - 1) div 2)) (?d p)" using c1 p by simp
    qed
    ultimately show ?thesis using ok nn by (simp add: heap_result_def)
  next
    case False
    then have Ln: "?L < length ?vs" using n by simp
    have nnL: "?d ?L \<noteq> NaN" and nnp: "?d pos \<noteq> NaN"
      using no_nan_nth[OF nn] Ln n by auto
    have nnR: "?R < length ?vs \<Longrightarrow> ?d ?R \<noteq> NaN" using no_nan_nth[OF nn] by auto
    have Rle: "?R \<le> length ?vs - 1 \<longleftrightarrow> ?R < length ?vs" using n by auto
    have lr: "?L < ?R" by (simp add: LR)
    have eq: "sift_down pos h =
        (if m \<noteq> pos then
           (case swap_pos m pos h of (Inl e, h') \<Rightarrow> (Inl e, h') | (Inr _, h') \<Rightarrow> sift_down m h')
         else (Inr (), h))"
      unfolding m_def using n False lr
      by (subst sift_down.simps) (simp only: Let_def simp_thms if_True if_False)
    show ?thesis
    proof (cases "m = pos")
      case True
      have nL: "\<not> fless (?d ?L) (?d pos)" using True LR unfolding m_def by (auto split: if_splits)
      have nR: "?R < length ?vs \<Longrightarrow> \<not> fless (?d ?R) (?d pos)"
        using True LR nL Rle unfolding m_def by (auto split: if_splits)
      have "heap_ordered h"
        unfolding heap_ordered_def
      proof (intro allI impI)
        fix p assume p: "0 < p \<and> p < length ?vs"
        show "fle (?d ((p - 1) div 2)) (?d p)"
        proof (cases "(p - 1) div 2 = pos")
          case True
          then have "p = ?L \<or> p = ?R" using child_iff[of p pos] p LR by simp
          then show ?thesis
            using True nL nR p nnL nnp nnR by (auto intro: not_fless_imp_fle)
        next
          case False
          then show ?thesis using c1 p by simp
        qed
      qed
      then show ?thesis using eq True ok nn by (simp add: heap_result_def)
    next
      case False
      have mLR: "m = 2 * pos + 1 \<or> m = 2 * pos + 2"
        using False LR unfolding m_def by (auto split: if_splits)
      have mn: "m < length ?vs" using False Ln Rle unfolding m_def by (auto split: if_splits)
      have lt: "fless (?d m) (?d pos)"
        using False unfolding m_def by (auto split: if_splits intro: fless_trans)
      have other: "fle (?d m) (?d c)"
        if c: "c < length ?vs" "c = 2 * pos + 1 \<or> c = 2 * pos + 2" for c
      proof -
        have cLR: "c = ?L \<or> c = ?R" using c LR by simp
        have nnc: "?d c \<noteq> NaN" using no_nan_nth[OF nn c(1)] .
        have nnm: "?d m \<noteq> NaN" using no_nan_nth[OF nn mn] .
        have "\<not> fless (?d c) (?d m)"
        proof
          assume a: "fless (?d c) (?d m)"
          show False
            using a cLR c(1) Rle False lt nnL nnp LR unfolding m_def
            by (auto split: if_splits dest: fless_trans)
        qed
        then show ?thesis using nnc nnm by (intro not_fless_imp_fle)
      qed
      obtain h' where sw: "swap_pos m pos h = (Inr (), h')"
        and vs': "nb_values h' = ?vs[m := ?vs ! pos, pos := ?vs ! m]" and ok': "index_ok h'"
        using swap_pos_ok[OF ok mn n] by blast
      have pre': "down_pre h' m"
        by (rule down_pre_swap[OF "1.prems" mLR mn lt other vs' ok'])
      note IH = "1.IH"[OF _ refl refl refl _ _ refl refl refl refl refl refl _
          sw[symmetric, unfolded m_def] refl, folded m_def]
      have "heap_result h' (sift_down m h')"
        using IH n lr \<open>\<not> ?L > length ?vs - 1\<close> False pre' by simp
      moreover have "mset (nb_values h') = mset ?vs" using n mn by (simp add: vs' mset_swap)
      ultimately show ?thesis using eq False sw by (simp add: heap_result_def)
    qed
  qed
qed


definition heap_inv :: "NarrowBandStore_rec \<Rightarrow> bool" where
  "heap_inv h \<longleftrightarrow> heap_ordered h \<and> index_ok h"

lemma heap_result_D:
  assumes "heap_result h r"
  obtains h' where "r = (Inr (), h')" "heap_inv h'" "no_nan h'"
    "mset (nb_values h') = mset (nb_values h)"
  using assms by (cases r) (auto simp: heap_result_def heap_inv_def)

lemma insert_value_ok:
  assumes inv: "heap_inv h" and nn: "no_nan h" and v: "fst v \<noteq> NaN"
    and fresh: "map_of (nb_index_to_pos h) (snd v) = None"
  obtains h' where "insert_value v h = (Inr (), h')" "heap_inv h'" "no_nan h'"
    "mset (nb_values h') = mset (nb_values h) + {#v#}"
proof -
  let ?vs = "nb_values h" and ?al = "nb_index_to_pos h"
  let ?h1 = "\<lparr>nb_values = ?vs @ [v], nb_index_to_pos = AList.update (snd v) (length ?vs) ?al\<rparr>"
  have ok: "index_ok h" and ord: "heap_ordered h" using inv by (auto simp: heap_inv_def)
  have notin: "snd v \<notin> fst ` set ?al" using fresh by (simp add: map_of_eq_None_iff)
  have keys: "\<And>p. p < length ?vs \<Longrightarrow> snd (?vs ! p) \<noteq> snd v"
    using ok fresh by (auto simp: index_ok_def)
  have ok1: "index_ok ?h1"
    unfolding index_ok_def
  proof (intro conjI allI impI)
    show "distinct (map fst (nb_index_to_pos ?h1))"
      using ok by (simp add: index_ok_def distinct_update)
    show "length (nb_index_to_pos ?h1) = length (nb_values ?h1)"
      using ok notin by (simp add: index_ok_def length_alist_update)
  next
    fix p assume "p < length (nb_values ?h1)"
    then show "map_of (nb_index_to_pos ?h1) (snd (nb_values ?h1 ! p)) = Some p"
      using ok keys by (auto simp: index_ok_def update_conv' nth_append)
  next
    fix k p assume "map_of (nb_index_to_pos ?h1) k = Some p"
    then show "p < length (nb_values ?h1)" "snd (nb_values ?h1 ! p) = k"
      using ok by (auto simp: index_ok_def update_conv' nth_append less_Suc_eq split: if_splits)
  qed
  have nn1: "no_nan ?h1" using nn v by (auto simp: no_nan_def)
  have "up_pre ?h1 (length ?vs)"
    unfolding up_pre_def
  proof (intro conjI allI impI)
    fix p assume p: "0 < p \<and> p < length (nb_values ?h1) \<and> p \<noteq> length ?vs"
    then have pl: "p < length ?vs" by simp
    then have "(p - 1) div 2 < length ?vs" using parent_lt[of p] p by simp
    then show "fle (fst (nb_values ?h1 ! ((p - 1) div 2))) (fst (nb_values ?h1 ! p))"
      using ord p pl by (simp add: heap_ordered_def nth_append)
  next
    fix c assume c: "0 < length ?vs \<and> 0 < c \<and> c < length (nb_values ?h1)
        \<and> (c - 1) div 2 = length ?vs"
    then have "length ?vs < c" using parent_lt[of c] by simp
    then show "fle (fst (nb_values ?h1 ! ((length ?vs - 1) div 2))) (fst (nb_values ?h1 ! c))"
      using c by simp
  qed (use ok1 nn1 in simp_all)
  from heap_result_D[OF sift_up_ok[OF this]] obtain h' where
    "sift_up (length ?vs) ?h1 = (Inr (), h')" "heap_inv h'" "no_nan h'"
    "mset (nb_values h') = mset (nb_values ?h1)" by blast
  then show ?thesis using that fresh by (simp add: insert_value_def Let_def)
qed

lemma set_value_index_ok:
  assumes ok: "index_ok h" and pos: "pos < length (nb_values h)"
  shows "index_ok (h\<lparr>nb_values := (nb_values h)[pos := (d, snd (nb_values h ! pos))]\<rparr>)"
  using assms unfolding index_ok_def by (auto simp: nth_list_update)

lemma set_value_no_nan:
  assumes "no_nan h" "d \<noteq> NaN"
  shows "no_nan (h\<lparr>nb_values := (nb_values h)[pos := (d, k)]\<rparr>)"
  using assms unfolding no_nan_def by (auto dest!: set_update_subset_insert[THEN subsetD])

lemma decrease_distance_ok:
  assumes inv: "heap_inv h" and nn: "no_nan h" and d: "d \<noteq> NaN"
    and ret: "fst (decrease_distance index d h) = Inr ()"
  obtains h' pos where "decrease_distance index d h = (Inr (), h')" "heap_inv h'" "no_nan h'"
    "pos < length (nb_values h)" "snd (nb_values h ! pos) = index"
    "mset (nb_values h') = mset ((nb_values h)[pos := (d, index)])"
proof -
  let ?vs = "nb_values h" and ?al = "nb_index_to_pos h"
  let ?d = "\<lambda>p. fst (?vs ! p)"
  have ok: "index_ok h" and ord: "heap_ordered h" using inv by (auto simp: heap_inv_def)
  from ret obtain pos where m: "map_of ?al index = Some pos"
    by (auto simp: decrease_distance_def split: option.splits)
  then have pos: "pos < length ?vs" and key: "snd (?vs ! pos) = index"
    using ok by (auto simp: index_ok_def)
  let ?h1 = "h\<lparr>nb_values := ?vs[pos := (d, snd (?vs ! pos))]\<rparr>"
  have nle: "\<not> fle (?d pos) d" using ret m pos
    by (auto simp: decrease_distance_def split: if_splits)
  have lt: "fless d (?d pos)" using nle d no_nan_nth[OF nn pos] by (intro not_fle_imp_fless)
  have eq: "decrease_distance index d h = sift_up pos ?h1"
    using m pos nle by (simp add: decrease_distance_def)
  have "up_pre ?h1 pos"
    unfolding up_pre_def
  proof (intro conjI allI impI)
    fix p assume p: "0 < p \<and> p < length (nb_values ?h1) \<and> p \<noteq> pos"
    then have pl: "p < length ?vs" by simp
    have q: "(p - 1) div 2 < length ?vs" using parent_lt[of p] p by simp
    have o: "fle (?d ((p - 1) div 2)) (?d p)" using ord p by (simp add: heap_ordered_def)
    show "fle (fst (nb_values ?h1 ! ((p - 1) div 2))) (fst (nb_values ?h1 ! p))"
    proof (cases "(p - 1) div 2 = pos")
      case True
      have "fle d (?d p)" using fle_trans[OF fless_imp_fle[OF lt]] o True by simp
      then show ?thesis using True p pos by (simp add: nth_list_update)
    next
      case False
      then show ?thesis using o p q by (simp add: nth_list_update)
    qed
  next
    fix c assume c: "0 < pos \<and> 0 < c \<and> c < length (nb_values ?h1) \<and> (c - 1) div 2 = pos"
    then have cl: "c < length ?vs" and cp: "pos < c" using parent_lt[of c] by auto
    have "fle (?d ((pos - 1) div 2)) (?d pos)" using ord c pos by (simp add: heap_ordered_def)
    moreover have "fle (?d pos) (?d c)" using ord c cl by (auto simp: heap_ordered_def)
    ultimately have "fle (?d ((pos - 1) div 2)) (?d c)" by (rule fle_trans)
    moreover have "(pos - 1) div 2 \<noteq> pos" using parent_lt[of pos] c by simp
    ultimately show "fle (fst (nb_values ?h1 ! ((pos - 1) div 2))) (fst (nb_values ?h1 ! c))"
      using cp by (simp add: nth_list_update)
  qed (use set_value_index_ok[OF ok pos] set_value_no_nan[OF nn d] pos in simp_all)
  from heap_result_D[OF sift_up_ok[OF this]] obtain h' where
    "sift_up pos ?h1 = (Inr (), h')" "heap_inv h'" "no_nan h'"
    "mset (nb_values h') = mset (nb_values ?h1)" by blast
  then show ?thesis using that[of h' pos] eq pos key by simp
qed

lemma increase_distance_ok:
  assumes inv: "heap_inv h" and nn: "no_nan h" and d: "d \<noteq> NaN"
    and ret: "fst (increase_distance index d h) = Inr ()"
  obtains h' pos where "increase_distance index d h = (Inr (), h')" "heap_inv h'" "no_nan h'"
    "pos < length (nb_values h)" "snd (nb_values h ! pos) = index"
    "mset (nb_values h') = mset ((nb_values h)[pos := (d, index)])"
proof -
  let ?vs = "nb_values h" and ?al = "nb_index_to_pos h"
  let ?d = "\<lambda>p. fst (?vs ! p)"
  have ok: "index_ok h" and ord: "heap_ordered h" using inv by (auto simp: heap_inv_def)
  from ret obtain pos where m: "map_of ?al index = Some pos"
    by (auto simp: increase_distance_def split: option.splits)
  then have pos: "pos < length ?vs" and key: "snd (?vs ! pos) = index"
    using ok by (auto simp: index_ok_def)
  let ?h1 = "h\<lparr>nb_values := ?vs[pos := (d, snd (?vs ! pos))]\<rparr>"
  have nle: "\<not> fle d (?d pos)" using ret m pos
    by (auto simp: increase_distance_def split: if_splits)
  have lt: "fless (?d pos) d" using nle d no_nan_nth[OF nn pos] by (intro not_fle_imp_fless)
  have eq: "increase_distance index d h = sift_down pos ?h1"
    using m pos nle by (simp add: increase_distance_def)
  have "down_pre ?h1 pos"
    unfolding down_pre_def
  proof (intro conjI allI impI)
    fix p assume p: "0 < p \<and> p < length (nb_values ?h1) \<and> (p - 1) div 2 \<noteq> pos"
    then have pl: "p < length ?vs" by simp
    have q: "(p - 1) div 2 < length ?vs" using parent_lt[of p] p by simp
    have o: "fle (?d ((p - 1) div 2)) (?d p)" using ord p by (simp add: heap_ordered_def)
    show "fle (fst (nb_values ?h1 ! ((p - 1) div 2))) (fst (nb_values ?h1 ! p))"
    proof (cases "p = pos")
      case True
      have "fle (?d ((p - 1) div 2)) d" using fle_trans[OF o] fless_imp_fle[OF lt] True by simp
      then show ?thesis using True p pos q by (simp add: nth_list_update)
    next
      case False
      then show ?thesis using o p q by (simp add: nth_list_update)
    qed
  next
    fix c assume c: "0 < pos \<and> 0 < c \<and> c < length (nb_values ?h1) \<and> (c - 1) div 2 = pos"
    then have cl: "c < length ?vs" and cp: "pos < c" using parent_lt[of c] by auto
    have "fle (?d ((pos - 1) div 2)) (?d pos)" using ord c pos by (simp add: heap_ordered_def)
    moreover have "fle (?d pos) (?d c)" using ord c cl by (auto simp: heap_ordered_def)
    ultimately have "fle (?d ((pos - 1) div 2)) (?d c)" by (rule fle_trans)
    moreover have "(pos - 1) div 2 \<noteq> pos" using parent_lt[of pos] c by simp
    ultimately show "fle (fst (nb_values ?h1 ! ((pos - 1) div 2))) (fst (nb_values ?h1 ! c))"
      using cp by (simp add: nth_list_update)
  qed (use set_value_index_ok[OF ok pos] set_value_no_nan[OF nn d] pos in simp_all)
  from heap_result_D[OF sift_down_ok[OF this]] obtain h' where
    "sift_down pos ?h1 = (Inr (), h')" "heap_inv h'" "no_nan h'"
    "mset (nb_values h') = mset (nb_values ?h1)" by blast
  then show ?thesis using that[of h' pos] eq pos key by simp
qed


lemma nb_empty_ok: "index_ok h \<Longrightarrow> nb_empty h = Inr (nb_values h = [])"
  by (auto simp: nb_empty_def index_ok_def)

lemma pop_ok:
  assumes inv: "heap_inv h" and nn: "no_nan h" and ne: "nb_values h \<noteq> []"
  obtains h' where "pop h = (Inr (hd (nb_values h)), h')" "heap_inv h'" "no_nan h'"
    "mset (nb_values h) = mset (nb_values h') + {#hd (nb_values h)#}"
proof -
  let ?vs = "nb_values h" and ?n = "length (nb_values h)"
  let ?v = "hd ?vs"
  have ok: "index_ok h" and ord: "heap_ordered h" using inv by (auto simp: heap_inv_def)
  have n: "0 < ?n" "?n - 1 < ?n" using ne by auto
  have v0: "?v = ?vs ! 0" using ne by (simp add: hd_conv_nth)
  obtain h1 where sw: "swap_pos 0 (?n - 1) h = (Inr (), h1)"
    and vs1: "nb_values h1 = ?vs[0 := ?vs ! (?n - 1), ?n - 1 := ?vs ! 0]" and ok1: "index_ok h1"
    using swap_pos_ok[OF ok n(1) n(2)] by blast
  let ?vs1 = "nb_values h1" and ?al1 = "nb_index_to_pos h1"
  have len1: "length ?vs1 = ?n" by (simp add: vs1)
  have last1: "?vs1 ! (?n - 1) = ?v" using n v0 by (simp add: vs1)
  have ms1: "mset ?vs1 = mset ?vs" using n by (simp add: vs1 mset_swap)
  define h2 where "h2 = \<lparr>nb_values = butlast ?vs1,
                          nb_index_to_pos = AList.delete (snd ?v) ?al1\<rparr>"
  have vs2: "nb_values h2 = butlast ?vs1" and al2: "nb_index_to_pos h2 = AList.delete (snd ?v) ?al1"
    by (simp_all add: h2_def)
  have mlast: "map_of ?al1 (snd ?v) = Some (?n - 1)"
    using ok1 len1 n last1 unfolding index_ok_def by metis
  have len2: "length (nb_index_to_pos h2) = length (nb_values h2)"
    using length_alist_delete[of ?al1 "snd ?v"] ok1 map_of_in_keys[OF mlast] len1
    by (simp add: vs2 al2 index_ok_def)
  have ok2: "index_ok h2"
    unfolding index_ok_def
  proof (intro conjI allI impI)
    show "distinct (map fst (nb_index_to_pos h2))"
      using ok1 by (simp add: al2 index_ok_def distinct_delete)
    show "length (nb_index_to_pos h2) = length (nb_values h2)" by (rule len2)
  next
    fix p assume "p < length (nb_values h2)"
    then have p: "p < ?n - 1" by (simp add: vs2 len1)
    then have "snd (?vs1 ! p) \<noteq> snd (?vs1 ! (?n - 1))"
      using index_ok_inj[OF ok1, of p "?n - 1"] len1 n by auto
    moreover have "map_of ?al1 (snd (?vs1 ! p)) = Some p"
      using ok1 p len1 by (simp add: index_ok_def)
    ultimately show "map_of (nb_index_to_pos h2) (snd (nb_values h2 ! p)) = Some p"
      using p last1 by (simp add: vs2 al2 nth_butlast len1)
  next
    fix k p assume a: "map_of (nb_index_to_pos h2) k = Some p"
    then have k: "k \<noteq> snd ?v" and m: "map_of ?al1 k = Some p"
      by (auto simp: al2 delete_conv' split: if_splits)
    then have p: "p < ?n" "snd (?vs1 ! p) = k" using ok1 len1 by (auto simp: index_ok_def)
    then have "p \<noteq> ?n - 1" using k last1 by auto
    then show "p < length (nb_values h2)" "snd (nb_values h2 ! p) = k"
      using p by (auto simp: vs2 len1 nth_butlast)
  qed
  have sub: "set (nb_values h2) \<subseteq> set ?vs"
    using ms1 by (metis in_set_butlastD mset_eq_setD subsetI vs2)
  have nn2: "no_nan h2" using nn sub by (auto simp: no_nan_def)
  have ne1: "?vs1 \<noteq> []" using len1 n by auto
  have "?vs1 = butlast ?vs1 @ [?v]"
    using append_butlast_last_id[OF ne1] last1 ne1 len1 by (simp add: last_conv_nth)
  then have "mset ?vs1 = mset (nb_values h2) + {#?v#}" by (metis mset.simps(2) mset_append
        add_mset_add_single mset.simps(1) vs2 union_mset_add_mset_right add.right_neutral)
  then have ms2: "mset ?vs = mset (nb_values h2) + {#?v#}" using ms1 by simp
  have ord2: "\<And>p. 0 < p \<Longrightarrow> p < length (nb_values h2) \<Longrightarrow> (p - 1) div 2 \<noteq> 0
      \<Longrightarrow> fle (fst (nb_values h2 ! ((p - 1) div 2))) (fst (nb_values h2 ! p))"
  proof -
    fix p assume p: "0 < p" "p < length (nb_values h2)" "(p - 1) div 2 \<noteq> 0"
    then have pn: "p < ?n - 1" by (simp add: vs2 len1)
    have q: "(p - 1) div 2 < p" using parent_lt[OF p(1)] .
    have "fle (fst (?vs ! ((p - 1) div 2))) (fst (?vs ! p))"
      using ord p pn by (simp add: heap_ordered_def)
    then show "fle (fst (nb_values h2 ! ((p - 1) div 2))) (fst (nb_values h2 ! p))"
      using p pn q by (simp add: vs2 vs1 nth_butlast)
  qed
  have e0: "nb_empty h = Inr False" using nb_empty_ok[OF ok] ne by simp
  have e2: "nb_empty h2 = Inr (nb_values h2 = [])" by (rule nb_empty_ok[OF ok2])
  have pop_eq: "pop h = (if nb_values h2 = [] then (Inr ?v, h2)
      else (case sift_down 0 h2 of (Inl e, h3) \<Rightarrow> (Inl e, h3) | (Inr _, h3) \<Rightarrow> (Inr ?v, h3)))"
    using e0 sw len2[unfolded h2_def] e2[unfolded h2_def]
    by (simp add: pop_def Let_def h2_def len1)
  show ?thesis
  proof (cases "nb_values h2 = []")
    case True
    then have "heap_inv h2" using ok2 by (simp add: heap_inv_def heap_ordered_def)
    then show ?thesis using that[of h2] pop_eq True nn2 ms2 by simp
  next
    case False
    have "down_pre h2 0"
      unfolding down_pre_def using ok2 nn2 False ord2 by auto
    from heap_result_D[OF sift_down_ok[OF this]] obtain h3 where
      "sift_down 0 h2 = (Inr (), h3)" "heap_inv h3" "no_nan h3"
      "mset (nb_values h3) = mset (nb_values h2)" by blast
    then show ?thesis using that[of h3] pop_eq False ms2 by simp
  qed
qed

lemma pop_returns:
  assumes inv: "heap_inv h" and nn: "no_nan h" and ret: "pop h = (Inr v, h')"
  shows "heap_inv h' \<and> no_nan h' \<and> nb_values h \<noteq> [] \<and> v = hd (nb_values h)
     \<and> mset (nb_values h) = mset (nb_values h') + {#v#}"
proof -
  have ok: "index_ok h" using inv by (simp add: heap_inv_def)
  have ne: "nb_values h \<noteq> []"
    using ret nb_empty_ok[OF ok] by (auto simp: pop_def split: if_splits)
  from pop_ok[OF inv nn ne] ret show ?thesis using ne by auto
qed

datatype nb_op =
    Insert fl "int list" | Pop | DecreaseDistance "int list" fl | IncreaseDistance "int list" fl

fun nb_apply :: "nb_op \<Rightarrow> NarrowBandStore_rec \<Rightarrow> (error + unit) \<times> NarrowBandStore_rec" where
  "nb_apply (Insert d index) h = insert_value (d, index) h"
| "nb_apply Pop h = (case pop h of (Inl e, h') \<Rightarrow> (Inl e, h') | (Inr _, h') \<Rightarrow> (Inr (), h'))"
| "nb_apply (DecreaseDistance index d) h = decrease_distance index d h"
| "nb_apply (IncreaseDistance index d) h = increase_distance index d h"

fun nb_run :: "nb_op list \<Rightarrow> NarrowBandStore_rec \<Rightarrow> error + NarrowBandStore_rec" where
  "nb_run [] h = Inr h"
| "nb_run (op # ops) h =
     (case nb_apply op h of (Inl e, _) \<Rightarrow> Inl e | (Inr _, h') \<Rightarrow> nb_run ops h')"

fun op_distance_ok :: "nb_op \<Rightarrow> bool" where
  "op_distance_ok (Insert d index) = (d \<noteq> NaN)"
| "op_distance_ok Pop = True"
| "op_distance_ok (DecreaseDistance index d) = (d \<noteq> NaN)"
| "op_distance_ok (IncreaseDistance index d) = (d \<noteq> NaN)"

lemma nb_apply_inv:
  assumes "heap_inv h" "no_nan h" "op_distance_ok op" "nb_apply op h = (Inr u, h')"
  shows "heap_inv h' \<and> no_nan h'"
proof (cases op)
  case (Insert d index)
  then have r: "insert_value (d, index) h = (Inr u, h')" using assms(4) by simp
  then have "map_of (nb_index_to_pos h) index = None"
    by (auto simp: insert_value_def split: if_splits)
  from insert_value_ok[OF assms(1,2), of "(d, index)"] this assms(3) Insert r
  show ?thesis by auto
next
  case Pop
  then obtain v where "pop h = (Inr v, h')"
    using assms(4) by (auto split: prod.splits sum.splits)
  from pop_returns[OF assms(1,2) this] show ?thesis by simp
next
  case (DecreaseDistance index d)
  then have r: "decrease_distance index d h = (Inr u, h')" using assms(4) by simp
  then have "fst (decrease_distance index d h) = Inr ()" by simp
  from decrease_distance_ok[OF assms(1,2) _ this] assms(3) DecreaseDistance r
  show ?thesis by auto
next
  case (IncreaseDistance index d)
  then have r: "increase_distance index d h = (Inr u, h')" using assms(4) by simp
  then have "fst (increase_distance index d h) = Inr ()" by simp
  from increase_distance_ok[OF assms(1,2) _ this] assms(3) IncreaseDistance r
  show ?thesis by auto
qed

lemma nb_run_inv:
  "heap_inv h \<Longrightarrow> no_nan h \<Longrightarrow> list_all op_distance_ok ops \<Longrightarrow> nb_run ops h = Inr h'
     \<Longrightarrow> heap_inv h' \<and> no_nan h'"
proof (induction ops arbitrary: h)
  case Nil
  then show ?case by simp
next
  case (Cons op ops)
  from Cons.prems(4) obtain u h1 where a: "nb_apply op h = (Inr u, h1)" and r: "nb_run ops h1 = Inr h'"
    by (auto split: prod.splits sum.splits)
  from nb_apply_inv[OF Cons.prems(1,2) _ a] Cons.prems(3) have "heap_inv h1 \<and> no_nan h1" by simp
  then show ?case using Cons.IH[OF _ _ _ r] Cons.prems(3) by simp
qed

lemma heap_inv_empty: "heap_inv NarrowBandStore" "no_nan NarrowBandStore"
  by (simp_all add: heap_inv_def heap_ordered_def index_ok_def no_nan_def NarrowBandStore_def)


section \<open>Concrete runs of the store\<close>

lemmas nb_eval = insert_value_def pop_def decrease_distance_def increase_distance_def
  nb_empty_def swap_pos_def parent_pos_def left_child_pos_def right_child_pos_def
  NarrowBandStore_def sift_up.simps sift_down.simps Let_def

lemma nb_run_example:
  "nb_run [Insert (Fin 3) [0], Insert (Fin 1) [1], Insert (Fin 2) [2],
           DecreaseDistance [0] (Fin 0), IncreaseDistance [0] (Fin 5), Pop] NarrowBandStore
   = Inr \<lparr>nb_values = [(Fin 2, [2]), (Fin 5, [0])],
          nb_index_to_pos = [([0], 1), ([2], 0)]\<rparr>"
  by (simp add: nb_eval)

lemma nb_run_nan:
  "nb_run [Insert (Fin 1) [0], Insert NaN [1], IncreaseDistance [1] (Fin 0)] NarrowBandStore
   = Inr \<lparr>nb_values = [(Fin 1, [0]), (Fin 0, [1])],
          nb_index_to_pos = [([0], 0), ([1], 1)]\<rparr>"
  by (simp add: nb_eval)

lemma not_ordered:
  "\<not> heap_ordered \<lparr>nb_values = [(Fin 1, [0]), (Fin 0, [1])],
          nb_index_to_pos = [([0], 0), ([1], 1)]\<rparr>"
  by (auto simp: heap_ordered_def intro!: exI[of _ 1])


text \<open>
  C3 (amended). Starting from the empty store, after any sequence of \<open>insert\<close>, \<open>pop\<close>,
  \<open>decrease_distance\<close> and \<open>increase_distance\<close> in which every call returned normally
  and no distance passed in was NaN, (I1) the vector is a min-heap on the distances and
  (I2) the map has exactly one entry per element and sends each stored index to its
  position; in particular no index occurs twice in the heap.
\<close>

theorem narrow_band_invariants:
  assumes "list_all op_distance_ok ops" "nb_run ops NarrowBandStore = Inr h"
  shows "heap_ordered h \<and> index_ok h \<and> distinct (map snd (nb_values h))"
  using nb_run_inv[OF heap_inv_empty assms] index_ok_distinct[of h]
  by (simp add: heap_inv_def)

theorem narrow_band_invariants_witness:
  "list_all op_distance_ok
     [Insert (Fin 3) [0], Insert (Fin 1) [1], Insert (Fin 2) [2],
      DecreaseDistance [0] (Fin 0), IncreaseDistance [0] (Fin 5), Pop]
   \<and> nb_run [Insert (Fin 3) [0], Insert (Fin 1) [1], Insert (Fin 2) [2],
             DecreaseDistance [0] (Fin 0), IncreaseDistance [0] (Fin 5), Pop] NarrowBandStore
     = Inr \<lparr>nb_values = [(Fin 2, [2]), (Fin 5, [0])], nb_index_to_pos = [([0], 1), ([2], 0)]\<rparr>
   \<and> heap_ordered \<lparr>nb_values = [(Fin 2, [2]), (Fin 5, [0])],
                    nb_index_to_pos = [([0], 1), ([2], 0)]\<rparr>
   \<and> index_ok \<lparr>nb_values = [(Fin 2, [2]), (Fin 5, [0])],
                 nb_index_to_pos = [([0], 1), ([2], 0)]\<rparr>
   \<and> distinct (map snd (nb_values \<lparr>nb_values = [(Fin 2, [2]), (Fin 5, [0])],
                                    nb_index_to_pos = [([0], 1), ([2], 0)]\<rparr>))"
proof -
  have ok: "list_all op_distance_ok
     [Insert (Fin 3) [0], Insert (Fin 1) [1], Insert (Fin 2) [2],
      DecreaseDistance [0] (Fin 0), IncreaseDistance [0] (Fin 5), Pop]" by simp
  from narrow_band_invariants[OF ok nb_run_example] show ?thesis
    using ok nb_run_example by simp
qed

text \<open>As stated the claim fails once a NaN distance is stored: \<open>increase_distance\<close>
  accepts any new distance for an entry that holds NaN (\<open>new_distance <= NaN\<close> is
  false) and sifts down only, which leaves a child below its parent.\<close>

theorem narrow_band_nan_counterexample:
  "nb_run [Insert (Fin 1) [0], Insert NaN [1], IncreaseDistance [1] (Fin 0)] NarrowBandStore
     = Inr \<lparr>nb_values = [(Fin 1, [0]), (Fin 0, [1])], nb_index_to_pos = [([0], 0), ([1], 1)]\<rparr>
   \<and> \<not> heap_ordered \<lparr>nb_values = [(Fin 1, [0]), (Fin 0, [1])],
                       nb_index_to_pos = [([0], 0), ([1], 1)]\<rparr>
   \<and> fless (fst (nb_values \<lparr>nb_values = [(Fin 1, [0]), (Fin 0, [1])],
                             nb_index_to_pos = [([0], 0), ([1], 1)]\<rparr> ! 1))
            (fst (nb_values \<lparr>nb_values = [(Fin 1, [0]), (Fin 0, [1])],
                             nb_index_to_pos = [([0], 0), ([1], 1)]\<rparr> ! 0))"
  using nb_run_nan not_ordered by simp

section \<open>Validation of the input (C4)\<close>

text \<open>The errors of the validation stage, and the results that are none of them.
  No stage after the validation raises one of these: the later failures are the
  assertions, the unchecked accesses and the empty narrow band.\<close>

definition validation_error :: "error \<Rightarrow> bool" where
  "validation_error e \<longleftrightarrow>
     e \<in> {InvalidSize, InvalidSpacing, InvalidSpeed, SizeMismatch, InvalidIndex,
          InvalidDistance, InvalidNormal}"

definition no_val :: "error + 'a \<Rightarrow> bool" where
  "no_val r \<longleftrightarrow> (\<forall>e. r = Inl e \<longrightarrow> \<not> validation_error e)"

lemma no_val_simps [simp]:
  "no_val (Inr x)" "no_val (Inl AssertionFailed)" "no_val (Inl OutOfBounds)"
  "no_val (Inl NarrowBandEmpty)"
  by (simp_all add: no_val_def validation_error_def)

lemma no_val_bindE: "no_val m \<Longrightarrow> (\<And>x. m = Inr x \<Longrightarrow> no_val (f x)) \<Longrightarrow> no_val (bindE m f)"
  by (cases m) (auto simp: no_val_def)

lemma no_val_foldE: "(\<And>x s. no_val (f x s)) \<Longrightarrow> no_val (foldE f xs s)"
  by (induction xs arbitrary: s) (auto intro: no_val_bindE)

lemma no_val_outcome:
  assumes "\<And>e y. p = (Inl e, y) \<Longrightarrow> \<not> validation_error e"
    and "\<And>u y. p = (Inr u, y) \<Longrightarrow> no_val (g u y)"
  shows "no_val (case p of (Inl e, y) \<Rightarrow> Inl e | (Inr u, y) \<Rightarrow> g u y)"
  using assms by (cases p; cases "fst p") (auto simp: no_val_def)

lemma no_val_cell [simp]: "no_val (cell g index)"
  by (auto simp: cell_def linearIndex_def intro!: no_val_bindE)

lemma no_val_set_cell [simp]: "no_val (set_cell g index v)"
  by (auto simp: set_cell_def linearIndex_def intro!: no_val_bindE)

lemma no_val_nb_empty [simp]: "no_val (nb_empty h)"
  by (simp add: nb_empty_def)

lemma no_val_frozen_neighbor_step [simp]: "no_val (frozen_neighbor_step dg sg index off m)"
  by (auto simp: frozen_neighbor_step_def Let_def intro!: no_val_bindE)

lemma no_val_solve [simp]: "no_val (solve es index offs dg sg)"
  by (auto simp: solve_def solve_coefficients_def solve_axis_def Let_def
      intro!: no_val_bindE no_val_foldE)

lemma insert_value_no_val: "insert_value v h = (Inl e, y) \<Longrightarrow> \<not> validation_error e"
  by (auto simp: insert_value_def Let_def validation_error_def
      dest: sift_up_error split: if_splits)

lemma decrease_distance_no_val:
  "decrease_distance i d h = (Inl e, y) \<Longrightarrow> \<not> validation_error e"
  by (auto simp: decrease_distance_def validation_error_def
      dest: sift_up_error split: if_splits option.splits)

lemma pop_no_val: "pop h = (Inl e, y) \<Longrightarrow> \<not> validation_error e"
proof -
  assume a: "pop h = (Inl e, y)"
  have "e = CannotPopEmpty \<or> e = AssertionFailed"
    using a unfolding pop_def Let_def
    by (auto dest: sift_down_error swap_pos_error nb_empty_error
        split: if_splits sum.splits prod.splits bool.splits)
  then show ?thesis by (auto simp: validation_error_def)
qed

lemma outcome_no_val:
  "validation_error e \<Longrightarrow> insert_value v h \<noteq> (Inl e, y)"
  "validation_error e \<Longrightarrow> decrease_distance i d h \<noteq> (Inl e, y)"
  "validation_error e \<Longrightarrow> pop h \<noteq> (Inl e, y)"
  using insert_value_no_val decrease_distance_no_val pop_no_val by blast+

lemma not_validation_error [simp]:
  "\<not> validation_error AssertionFailed" "\<not> validation_error OutOfBounds"
  "\<not> validation_error NarrowBandEmpty"
  by (simp_all add: validation_error_def)

lemma no_val_update_neighbor [simp]:
  "no_val (update_neighbor es index offs normal pred off s)"
  unfolding update_neighbor_def Let_def
  by (auto intro!: no_val_bindE no_val_outcome
      simp: outcome_no_val no_val_def[of "Inl _"]
      split: prod.splits sum.splits CellState.splits)

lemma no_val_updateNeighbors [simp]: "no_val (updateNeighbors es index offs normal pred s)"
  unfolding updateNeighbors_def
  by (auto intro!: no_val_bindE no_val_foldE split: prod.splits)

lemma no_val_initializeFrozenCells [simp]:
  "no_val (initializeFrozenCells idx ds m gs)"
  unfolding initializeFrozenCells_def
  by (auto intro!: no_val_bindE no_val_foldE split: prod.splits)

lemma no_val_initializeNarrowBand [simp]:
  "no_val (initializeNarrowBand es idx offs ns pred gs)"
  unfolding initializeNarrowBand_def
  by (auto intro!: no_val_bindE no_val_foldE split: prod.splits)

lemma no_val_march_step [simp]: "no_val (march_step es offs s)"
  unfolding march_step_def
  by (auto intro!: no_val_bindE no_val_outcome
      simp: outcome_no_val no_val_def[of "Inl _"] split: prod.splits sum.splits)

lemma no_val_marchNarrowBand [simp]: "no_val (marchNarrowBand es offs s)"
proof (induction es offs s rule: marchNarrowBand.induct)
  case (1 es offs s)
  show ?case
  proof (cases "march_step es offs s")
    case (Inl e)
    then show ?thesis using no_val_march_step[of es offs s]
      by (subst marchNarrowBand.simps) (simp add: no_val_def)
  next
    case (Inr r)
    show ?thesis
    proof (cases r)
      case None
      then show ?thesis using Inr by (subst marchNarrowBand.simps) simp
    next
      case (Some p)
      obtain v s' where p: "p = (v, s')" by (cases p) auto
      show ?thesis
        using "1.IH"[OF Inr Some p[symmetric]] Inr Some p
        by (subst marchNarrowBand.simps) simp
    qed
  qed
qed

definition validation_failure ::
  "bool \<Rightarrow> nat list \<Rightarrow> fl list \<Rightarrow> fl \<Rightarrow> int list list \<Rightarrow> fl list \<Rightarrow> fl list list
     \<Rightarrow> error option" where
  "validation_failure check_normals sz dx speed seed_indices seed_distances seed_normals =
     (if \<exists>s \<in> set sz. s < 1 then Some InvalidSize
      else if \<exists>d \<in> set dx. fle d (Fin 0) then Some InvalidSpacing
      else if fle speed (Fin 0) then Some InvalidSpeed
      else if \<not> (length seed_indices = length seed_distances
                  \<and> length seed_distances = length seed_normals) then Some SizeMismatch
      else if \<exists>i \<in> set seed_indices. \<not> inside i sz then Some InvalidIndex
      else if \<exists>d \<in> set seed_distances. isnan d then Some InvalidDistance
      else if check_normals
              \<and> (\<exists>n \<in> set seed_normals. fless (squaredMagnitude n) (Fin (1 / 4)))
      then Some InvalidNormal
      else None)"

lemma validation_failure_is_validation_error:
  "validation_failure c sz dx speed idx ds ns = Some e \<Longrightarrow> validation_error e"
  by (auto simp: validation_failure_def validation_error_def split: if_splits)

lemma unsignedDistance_validation:
  "(case validation_failure False sz dx speed idx ds ns of
      Some e \<Rightarrow> unsignedDistance sz dx speed idx ds ns = Inl e
    | None \<Rightarrow> no_val (unsignedDistance sz dx speed idx ds ns))"
proof (cases "validation_failure False sz dx speed idx ds ns")
  case (Some e)
  then show ?thesis
    by (auto simp: validation_failure_def unsignedDistance_def throwIfInvalidSize_def
        throwIfInvalidSpacing_def throwIfInvalidSpeed_def throwIfSizeNotEqual3_def
        throwIfSizeNotEqual_def throwIfInvalidIndex_def throwIfInvalidDistance_def
        list_ex_iff split: if_splits)
next
  case None
  then have v: "throwIfInvalidSize sz = Inr ()" "throwIfInvalidSpacing dx = Inr ()"
    "throwIfInvalidSpeed speed = Inr ()" "throwIfSizeNotEqual3 idx ds ns = Inr ()"
    "throwIfInvalidIndex idx sz = Inr ()"
    "throwIfInvalidDistance ds (\<lambda>d. \<not> isnan d) = Inr ()"
    by (auto simp: validation_failure_def throwIfInvalidSize_def
        throwIfInvalidSpacing_def throwIfInvalidSpeed_def throwIfSizeNotEqual3_def
        throwIfSizeNotEqual_def throwIfInvalidIndex_def throwIfInvalidDistance_def
        list_ex_iff split: if_splits)
  have "no_val (unsignedDistance sz dx speed idx ds ns)"
    unfolding unsignedDistance_def v Let_def bindE_simps
    by (intro no_val_bindE no_val_foldE no_val_initializeFrozenCells
        no_val_initializeNarrowBand no_val_marchNarrowBand)
       (auto split: prod.splits)
  then show ?thesis using None by simp
qed

lemma signedDistance_validation:
  "(case validation_failure True sz dx speed idx ds ns of
      Some e \<Rightarrow> signedDistance sz dx speed idx ds ns = Inl e
    | None \<Rightarrow> no_val (signedDistance sz dx speed idx ds ns))"
proof (cases "validation_failure True sz dx speed idx ds ns")
  case (Some e)
  then show ?thesis
    by (auto simp: validation_failure_def signedDistance_def throwIfInvalidSize_def
        throwIfInvalidSpacing_def throwIfInvalidSpeed_def throwIfSizeNotEqual3_def
        throwIfSizeNotEqual_def throwIfInvalidIndex_def throwIfInvalidDistance_def
        throwIfInvalidNormal_def list_ex_iff split: if_splits)
next
  case None
  then have v: "throwIfInvalidSize sz = Inr ()" "throwIfInvalidSpacing dx = Inr ()"
    "throwIfInvalidSpeed speed = Inr ()" "throwIfSizeNotEqual3 idx ds ns = Inr ()"
    "throwIfInvalidIndex idx sz = Inr ()"
    "throwIfInvalidDistance ds (\<lambda>d. \<not> isnan d) = Inr ()"
    "throwIfInvalidNormal ns = Inr ()"
    by (auto simp: validation_failure_def throwIfInvalidSize_def
        throwIfInvalidSpacing_def throwIfInvalidSpeed_def throwIfSizeNotEqual3_def
        throwIfSizeNotEqual_def throwIfInvalidIndex_def throwIfInvalidDistance_def
        throwIfInvalidNormal_def list_ex_iff split: if_splits)
  have "no_val (signedDistance sz dx speed idx ds ns)"
    unfolding signedDistance_def v Let_def bindE_simps
    by (intro no_val_bindE no_val_foldE no_val_initializeFrozenCells
        no_val_initializeNarrowBand no_val_marchNarrowBand)
       (auto split: prod.splits)
  then show ?thesis using None by simp
qed


text \<open>
  C4 (amended). Both drivers validate their input before any grid is built, one check
  after the other, in the order size, spacing, speed, array lengths, seed indices,
  seed distances and, in \<open>signedDistance\<close> only, normals. A call fails with one of
  the validation errors exactly when the check of that error is the first one that is
  violated (\<open>validation_failure\<close> gives the first violated check, with the conditions
  of the claim); \<open>unsignedDistance\<close> never fails with \<open>InvalidNormal\<close>.
\<close>

theorem validation_first_failure:
  assumes "validation_error e"
  shows "(unsignedDistance sz dx speed idx ds ns = Inl e
            \<longleftrightarrow> validation_failure False sz dx speed idx ds ns = Some e)
       \<and> (signedDistance sz dx speed idx ds ns = Inl e
            \<longleftrightarrow> validation_failure True sz dx speed idx ds ns = Some e)"
  using assms unsignedDistance_validation[of sz dx speed idx ds ns]
    signedDistance_validation[of sz dx speed idx ds ns]
  by (auto simp: no_val_def split: option.splits)

theorem validation_first_failure_witness:
  "validation_error InvalidNormal
   \<and> unsignedDistance [3] [Fin 1] (Fin 1) [[1]] [Fin 0] [[Fin (1 / 10)]] \<noteq> Inl InvalidNormal
   \<and> signedDistance [3] [Fin 1] (Fin 1) [[1]] [Fin 0] [[Fin (1 / 10)]] = Inl InvalidNormal"
proof -
  have e: "validation_error InvalidNormal" by (simp add: validation_error_def)
  from validation_first_failure[OF e, of "[3]" "[Fin 1]" "Fin 1" "[[1]]" "[Fin 0]"
      "[[Fin (1 / 10)]]"]
  show ?thesis using e
    by (simp add: validation_failure_def inside_def squaredMagnitude_def isnan_def)
qed

text \<open>As stated the claim fails on an input that violates two checks: with a zero
  size and a zero spacing some \<open>dx\<close> component is \<open>\<le> 0\<close>, yet both drivers fail with
  \<open>InvalidSize\<close>, not with \<open>InvalidSpacing\<close>.\<close>

theorem validation_order_counterexample:
  "fle (Fin 0) (Fin 0)
   \<and> unsignedDistance [0] [Fin 0] (Fin 1) [] [] [] = Inl InvalidSize
   \<and> signedDistance [0] [Fin 0] (Fin 1) [] [] [] = Inl InvalidSize"
  by (simp add: unsignedDistance_def signedDistance_def throwIfInvalidSize_def)

section \<open>Seed fidelity (C5)\<close>

text \<open>The row-major linear index as the specification has it: the first component
  runs fastest, component \<open>j\<close> is weighted by the product of the sizes before it. It is
  the offset that \<open>linearIndex\<close> computes from the strides.\<close>

definition row_major :: "int list \<Rightarrow> nat list \<Rightarrow> nat" where
  "row_major index sz = (\<Sum>j < length sz. nat (index ! j) * prod_list (take j sz))"

lemma mixed_row_major: "length index = length sz \<Longrightarrow> mixed index sz = row_major index sz"
proof (induction index sz rule: list_induct2)
  case Nil
  then show ?case by (simp add: row_major_def)
next
  case (Cons x xs s ss)
  have "row_major (x # xs) (s # ss)
      = nat x + (\<Sum>j < length ss. nat (xs ! j) * (s * prod_list (take j ss)))"
    by (simp add: row_major_def sum.lessThan_Suc_shift del: sum.lessThan_Suc)
  also have "\<dots> = nat x + s * row_major xs ss"
    by (simp add: row_major_def sum_distrib_left mult.left_commute)
  finally show ?case using Cons by simp
qed


lemma unsignedDistance_seed:
  assumes r: "unsignedDistance sz dx speed idx ds ns = Inr buf"
    and d: "distinct idx" and i: "i < length idx"
  shows "buf ! row_major (idx ! i) sz = fabs (ds ! i)"
proof -
  from r obtain gs1 s2 s3 gs4 s5 s6 g7 where
    a: "initializeFrozenCells idx ds (Fin (- 1))
       (Grid sz (replicate (linearSize sz) numeric_limits_max),
        Grid sz (replicate (linearSize sz) Far)) = Inr gs1"
    "initializeNarrowBand (EikonalSolver dx speed) idx (offsets (length sz)) ns inside_pred gs1
       = Inr s2"
    "marchNarrowBand (EikonalSolver dx speed) (offsets (length sz)) s2 = Inr s3"
    and b: "initializeFrozenCells idx ds (Fin 1) (fst s3, fst (snd s3)) = Inr gs4"
    "initializeNarrowBand (EikonalSolver dx speed) idx (offsets (length sz)) ns outside_pred gs4
       = Inr s5"
    "marchNarrowBand (EikonalSolver dx speed) (offsets (length sz)) s5 = Inr s6"
    and w: "foldE (\<lambda>(index, d) g. set_cell g index (fabs d)) (zip idx ds) (fst s6) = Inr g7"
    and buf: "buf = g_cells g7"
    by (rule unsignedDistance_Inr)
  have len: "length idx = length ds" using initializeFrozenCells_Inr(1)[OF a(1)] .
  have "shape (fst s6) = shape (fst s3)" using sweep_shapes(1)[OF b] .
  also have "\<dots> = shape (Grid sz (replicate (linearSize sz) numeric_limits_max))"
    using sweep_shapes(1)[OF a] .
  finally have sh: "g_size (fst s6) = sz" "g_strides (fst s6) = strides_loop 1 (butlast sz)"
    by (simp_all add: shape_def Grid_def)
  then have st: "g_strides (fst s6) = strides_loop 1 (butlast (g_size (fst s6)))" by simp
  have v: "g_cells g7 ! linear_offset (fst s6) (idx ! i) = fabs (ds ! i)"
    using write_cells_value[OF len w d st i] .
  have "(idx ! i, ds ! i) \<in> set (zip idx ds)" using i len by (auto simp: set_zip)
  then have "inside (idx ! i) sz" "idx ! i \<noteq> []" using write_cells_frame[OF w] sh by auto
  then have "linear_offset (fst s6) (idx ! i) = row_major (idx ! i) sz"
    using linear_offset_mixed[of "idx ! i" "fst s6"] sh
    by (simp add: inside_length mixed_row_major)
  then show ?thesis using v buf by simp
qed

lemma signedDistance_seed:
  assumes r: "signedDistance sz dx speed idx ds ns = Inr buf"
    and d: "distinct idx" and i: "i < length idx"
  shows "buf ! row_major (idx ! i) sz = ds ! i"
proof -
  from r obtain gs1 s2 s3 gs4 s5 s6 g7 where
    a: "initializeFrozenCells idx ds (Fin (- 1))
       (Grid sz (replicate (linearSize sz) numeric_limits_max),
        Grid sz (replicate (linearSize sz) Far)) = Inr gs1"
    and "initializeNarrowBand (EikonalSolver dx speed) idx (offsets (length sz)) ns inside_pred gs1
       = Inr s2"
    and "marchNarrowBand (EikonalSolver dx speed) (offsets (length sz)) s2 = Inr s3"
    and "initializeFrozenCells idx ds (Fin 1)
       (Grid sz (replicate (linearSize sz) numeric_limits_max), fst (snd s3)) = Inr gs4"
    and "initializeNarrowBand (EikonalSolver dx speed) idx (offsets (length sz)) ns outside_pred gs4
       = Inr s5"
    and "marchNarrowBand (EikonalSolver dx speed) (offsets (length sz)) s5 = Inr s6"
    and w: "foldE (\<lambda>(index, d) g. set_cell g index d) (zip idx ds)
       (Grid sz (merge_buffers (linearSize sz) (g_cells (fst s3)) (g_cells (fst s6)))) = Inr g7"
    and buf: "buf = g_cells g7"
    by (rule signedDistance_Inr)
  let ?g = "Grid sz (merge_buffers (linearSize sz) (g_cells (fst s3)) (g_cells (fst s6)))"
  have len: "length idx = length ds" using initializeFrozenCells_Inr(1)[OF a] .
  have sh: "g_size ?g = sz" "g_strides ?g = strides_loop 1 (butlast sz)"
    by (simp_all add: Grid_def)
  then have st: "g_strides ?g = strides_loop 1 (butlast (g_size ?g))" by simp
  have v: "g_cells g7 ! linear_offset ?g (idx ! i) = (\<lambda>d. d) (ds ! i)"
    using write_cells_value[where f = "\<lambda>d. d", OF len w d st i] .
  have "(idx ! i, ds ! i) \<in> set (zip idx ds)" using i len by (auto simp: set_zip)
  then have "inside (idx ! i) sz" "idx ! i \<noteq> []"
    using write_cells_frame[where f = "\<lambda>d. d", OF w] sh by auto
  then have "linear_offset ?g (idx ! i) = row_major (idx ! i) sz"
    using linear_offset_mixed[of "idx ! i" ?g] sh
    by (simp add: inside_length mixed_row_major)
  then show ?thesis using v buf by simp
qed

text \<open>The returned buffer has one cell per grid cell, so the linear index of a seed is
  a position of the buffer.\<close>

lemma length_fold_update:
  "length (fold (\<lambda>i buf. if P i then buf[i := f i] else buf) xs b) = length b"
  by (induction xs arbitrary: b) simp_all

lemma length_merge_buffers: "length (merge_buffers n a b) = n"
  by (simp add: merge_buffers_def length_fold_update)

lemma unsignedDistance_length:
  assumes r: "unsignedDistance sz dx speed idx ds ns = Inr buf"
  shows "length buf = linearSize sz"
proof -
  from r obtain gs1 s2 s3 gs4 s5 s6 g7 where
    a: "initializeFrozenCells idx ds (Fin (- 1))
       (Grid sz (replicate (linearSize sz) numeric_limits_max),
        Grid sz (replicate (linearSize sz) Far)) = Inr gs1"
    "initializeNarrowBand (EikonalSolver dx speed) idx (offsets (length sz)) ns inside_pred gs1
       = Inr s2"
    "marchNarrowBand (EikonalSolver dx speed) (offsets (length sz)) s2 = Inr s3"
    and b: "initializeFrozenCells idx ds (Fin 1) (fst s3, fst (snd s3)) = Inr gs4"
    "initializeNarrowBand (EikonalSolver dx speed) idx (offsets (length sz)) ns outside_pred gs4
       = Inr s5"
    "marchNarrowBand (EikonalSolver dx speed) (offsets (length sz)) s5 = Inr s6"
    and w: "foldE (\<lambda>(index, d) g. set_cell g index (fabs d)) (zip idx ds) (fst s6) = Inr g7"
    and buf: "buf = g_cells g7"
    by (rule unsignedDistance_Inr)
  have "shape g7 = shape (fst s6)" using write_cells_frame[OF w] by simp
  also have "\<dots> = shape (fst s3)" using sweep_shapes(1)[OF b] .
  also have "\<dots> = shape (Grid sz (replicate (linearSize sz) numeric_limits_max))"
    using sweep_shapes(1)[OF a] .
  finally show ?thesis using buf by (simp add: shape_def Grid_def)
qed

lemma signedDistance_length:
  assumes r: "signedDistance sz dx speed idx ds ns = Inr buf"
  shows "length buf = linearSize sz"
proof -
  from r obtain gs1 s2 s3 gs4 s5 s6 g7 where
    "initializeFrozenCells idx ds (Fin (- 1))
       (Grid sz (replicate (linearSize sz) numeric_limits_max),
        Grid sz (replicate (linearSize sz) Far)) = Inr gs1"
    and "initializeNarrowBand (EikonalSolver dx speed) idx (offsets (length sz)) ns inside_pred gs1
       = Inr s2"
    and "marchNarrowBand (EikonalSolver dx speed) (offsets (length sz)) s2 = Inr s3"
    and "initializeFrozenCells idx ds (Fin 1)
       (Grid sz (replicate (linearSize sz) numeric_limits_max), fst (snd s3)) = Inr gs4"
    and "initializeNarrowBand (EikonalSolver dx speed) idx (offsets (length sz)) ns outside_pred gs4
       = Inr s5"
    and "marchNarrowBand (EikonalSolver dx speed) (offsets (length sz)) s5 = Inr s6"
    and w: "foldE (\<lambda>(index, d) g. set_cell g index d) (zip idx ds)
       (Grid sz (merge_buffers (linearSize sz) (g_cells (fst s3)) (g_cells (fst s6)))) = Inr g7"
    and buf: "buf = g_cells g7"
    by (rule signedDistance_Inr)
  have "shape g7
      = shape (Grid sz (merge_buffers (linearSize sz) (g_cells (fst s3)) (g_cells (fst s6))))"
    using write_cells_frame[where f = "\<lambda>d. d", OF w] by simp
  then show ?thesis using buf by (simp add: shape_def Grid_def length_merge_buffers)
qed

lemma seed_position:
  assumes "inside index sz"
  shows "row_major index sz < linearSize sz"
  using mixed_lt[OF assms] mixed_row_major[OF inside_length[OF assms]]
  by (simp add: linearSize_prod)

lemma throwIfInvalidIndex_Inr:
  "throwIfInvalidIndex idx sz = Inr () \<Longrightarrow> i < length idx \<Longrightarrow> inside (idx ! i) sz"
  by (auto simp: throwIfInvalidIndex_def list_ex_iff split: if_splits)

lemma unsignedDistance_valid:
  "unsignedDistance sz dx speed idx ds ns = Inr buf \<Longrightarrow> throwIfInvalidIndex idx sz = Inr ()"
  unfolding unsignedDistance_def bindE_eq_Inr by simp

lemma signedDistance_valid:
  "signedDistance sz dx speed idx ds ns = Inr buf \<Longrightarrow> throwIfInvalidIndex idx sz = Inr ()"
  unfolding signedDistance_def bindE_eq_Inr by simp

text \<open>
  C5. When the seed indices are pairwise distinct, the buffer that \<open>unsignedDistance\<close>
  returns holds \<open>|seed_distances[i]|\<close> at the row-major linear index of
  \<open>seed_indices[i]\<close>, for every seed \<open>i\<close>, and the buffer that \<open>signedDistance\<close> returns
  holds \<open>seed_distances[i]\<close> itself there; that index is a position of the buffer.
\<close>

theorem seed_fidelity:
  assumes "distinct seed_indices" and "i < length seed_indices"
  shows "(unsignedDistance sz dx speed seed_indices seed_distances normals = Inr buf \<longrightarrow>
            row_major (seed_indices ! i) sz < length buf
          \<and> buf ! row_major (seed_indices ! i) sz = fabs (seed_distances ! i))
       \<and> (signedDistance sz dx speed seed_indices seed_distances normals = Inr sbuf \<longrightarrow>
            row_major (seed_indices ! i) sz < length sbuf
          \<and> sbuf ! row_major (seed_indices ! i) sz = seed_distances ! i)"
proof (intro conjI impI)
  assume r: "unsignedDistance sz dx speed seed_indices seed_distances normals = Inr buf"
  show "row_major (seed_indices ! i) sz < length buf"
    using seed_position[OF throwIfInvalidIndex_Inr[OF unsignedDistance_valid[OF r] assms(2)]]
      unsignedDistance_length[OF r] by simp
  show "buf ! row_major (seed_indices ! i) sz = fabs (seed_distances ! i)"
    using unsignedDistance_seed[OF r assms] .
next
  assume r: "signedDistance sz dx speed seed_indices seed_distances normals = Inr sbuf"
  show "row_major (seed_indices ! i) sz < length sbuf"
    using seed_position[OF throwIfInvalidIndex_Inr[OF signedDistance_valid[OF r] assms(2)]]
      signedDistance_length[OF r] by simp
  show "sbuf ! row_major (seed_indices ! i) sz = seed_distances ! i"
    using signedDistance_seed[OF r assms] .
qed

theorem seed_fidelity_witness:
  "distinct [[1::int]] \<and> (0::nat) < length [[1::int]]
   \<and> unsignedDistance [3] [Fin 1] (Fin 1) [[1]] [Fin (- 1)] [[Fin 1]]
       = Inr [Fin 2, Fin 1, Fin 0]
   \<and> row_major ([[1]] ! 0) [3] < length [Fin 2, Fin 1, Fin 0]
   \<and> [Fin 2, Fin 1, Fin 0] ! row_major ([[1]] ! 0) [3] = fabs ([Fin (- 1)] ! 0)
   \<and> signedDistance [3] [Fin 1] (Fin 1) [[1]] [Fin (- 1)] [[Fin 1]]
       = Inr [Fin (- 2), Fin (- 1), Fin 0]
   \<and> row_major ([[1]] ! 0) [3] < length [Fin (- 2), Fin (- 1), Fin 0]
   \<and> [Fin (- 2), Fin (- 1), Fin 0] ! row_major ([[1]] ! 0) [3] = [Fin (- 1)] ! 0"
proof -
  have d: "distinct [[1::int]]" and i: "(0::nat) < length [[1::int]]" by simp_all
  from seed_fidelity[OF d i, of "[3]" "[Fin 1]" "Fin 1" "[Fin (- 1)]" "[[Fin 1]]"
      "[Fin 2, Fin 1, Fin 0]" "[Fin (- 2), Fin (- 1), Fin 0]"]
  show ?thesis using unsigned_run_seed signed_run_seed by simp
qed

section \<open>Non-negative unsigned distances (C8)\<close>

























section \<open>The order of the pops and the frozen cells (C6)\<close>









































section \<open>Finite distances and unreached cells (C7)\<close>





























































section \<open>The assertions of \<open>solve\<close> (C9)\<close>

text \<open>A single seed at distance 5 from the interface, on a line of five cells with
  unit spacing and unit speed. The inside sweep freezes the seed with distance \<open>-5\<close>
  and relaxes its left neighbor: the quadratic \<open>x\<^sup>2 + 10 x + 24\<close> has the roots \<open>-4\<close> and
  \<open>-6\<close>, and \<open>assert(r.first >= T(0))\<close> fails. With a spacing of \<open>100000\<close> the
  coefficient \<open>a = 1 / dx\<^sup>2\<close> is below the absolute tolerance \<open>1e-9\<close>, so a seed at
  distance \<open>0\<close> sends the solver into its first branch, which returns NaN although the
  cell has a frozen neighbor.\<close>

lemma c9_frozen:
  "initializeFrozenCells [[2]] [Fin 5] (Fin (- 1))
     (Grid [5] (replicate 5 numeric_limits_max), Grid [5] (replicate 5 Far))
   = Inr (Grid [5] [numeric_limits_max, numeric_limits_max, Fin (- 5), numeric_limits_max,
                    numeric_limits_max],
          Grid [5] [Far, Far, Frozen, Far, Far])"
  by (simp add: run_eval eval_nat_numeral)

lemma c9_coeffs:
  "solve_coefficients (EikonalSolver [Fin 1] (Fin 1)) [1] (offsets 1)
     (Grid [5] [numeric_limits_max, numeric_limits_max, Fin (- 5), numeric_limits_max,
                numeric_limits_max])
     (Grid [5] [Far, Far, Frozen, Far, Far]) = Inr (Fin 24, Fin 10, Fin 1)"
  using flt_max_gt by (simp add: run_eval eval_nat_numeral)

lemma c9_root: "solveQuadratic (Fin 24, Fin 10, Fin 1) = (Fin (- 4), Fin (- 6))"
  by (simp add: run_eval)

lemma c9_solve:
  "solve (EikonalSolver [Fin 1] (Fin 1)) [1] (offsets 1)
     (Grid [5] [numeric_limits_max, numeric_limits_max, Fin (- 5), numeric_limits_max,
                numeric_limits_max])
     (Grid [5] [Far, Far, Frozen, Far, Far]) = Inl AssertionFailed"
  using flt_max_gt by (simp add: run_eval eval_nat_numeral)

lemma c9_run:
  "unsignedDistance [5] [Fin 1] (Fin 1) [[2]] [Fin 5] [[Fin 1]] = Inl AssertionFailed"
  using flt_max_gt by (simp add: run_eval eval_nat_numeral)

lemma c9_srun:
  "signedDistance [5] [Fin 1] (Fin 1) [[2]] [Fin 5] [[Fin 1]] = Inl AssertionFailed"
  using flt_max_gt by (simp add: run_eval eval_nat_numeral)

lemma c9_far_coeffs:
  "solve_coefficients (EikonalSolver [Fin 100000] (Fin 1)) [1] (offsets 1)
     (Grid [5] [numeric_limits_max, numeric_limits_max, Fin 0, numeric_limits_max,
                numeric_limits_max])
     (Grid [5] [Far, Far, Frozen, Far, Far]) = Inr (Fin (- 1), Fin 0, Fin (1 / 10000000000))"
  using flt_max_gt by (simp add: run_eval eval_nat_numeral)

lemma c9_far_root: "solveQuadratic (Fin (- 1), Fin 0, Fin (1 / 10000000000)) = (NaN, NaN)"
  by (simp add: run_eval)

lemma c9_far_run:
  "unsignedDistance [5] [Fin 100000] (Fin 1) [[2]] [Fin 0] [[Fin 1]] = Inl AssertionFailed"
  using flt_max_gt by (simp add: run_eval eval_nat_numeral)

text \<open>
  C9. The claim is that a call of \<open>solve\<close> from \<open>initializeNarrowBand\<close> or
  \<open>marchNarrowBand\<close> never reaches the NaN branch of the quadratic solver and returns
  a value that is not NaN and not negative. The code breaks its own assertions on
  inputs that pass the validation: the runs below end in a failed assertion of
  \<open>solve\<close>, the first on a negative root, the second in the NaN branch.
\<close>

theorem solve_assertion_failure:
  "initializeFrozenCells [[2]] [Fin 5] (Fin (- 1))
     (Grid [5] (replicate 5 numeric_limits_max), Grid [5] (replicate 5 Far))
   = Inr (Grid [5] [numeric_limits_max, numeric_limits_max, Fin (- 5), numeric_limits_max,
                    numeric_limits_max],
          Grid [5] [Far, Far, Frozen, Far, Far])
   \<and> solve_coefficients (EikonalSolver [Fin 1] (Fin 1)) [1] (offsets 1)
     (Grid [5] [numeric_limits_max, numeric_limits_max, Fin (- 5), numeric_limits_max,
                numeric_limits_max])
     (Grid [5] [Far, Far, Frozen, Far, Far]) = Inr (Fin 24, Fin 10, Fin 1)
   \<and> solveQuadratic (Fin 24, Fin 10, Fin 1) = (Fin (- 4), Fin (- 6))
   \<and> solve (EikonalSolver [Fin 1] (Fin 1)) [1] (offsets 1)
     (Grid [5] [numeric_limits_max, numeric_limits_max, Fin (- 5), numeric_limits_max,
                numeric_limits_max])
     (Grid [5] [Far, Far, Frozen, Far, Far]) = Inl AssertionFailed
   \<and> unsignedDistance [5] [Fin 1] (Fin 1) [[2]] [Fin 5] [[Fin 1]] = Inl AssertionFailed
   \<and> signedDistance [5] [Fin 1] (Fin 1) [[2]] [Fin 5] [[Fin 1]] = Inl AssertionFailed
   \<and> solve_coefficients (EikonalSolver [Fin 100000] (Fin 1)) [1] (offsets 1)
     (Grid [5] [numeric_limits_max, numeric_limits_max, Fin 0, numeric_limits_max,
                numeric_limits_max])
     (Grid [5] [Far, Far, Frozen, Far, Far]) = Inr (Fin (- 1), Fin 0, Fin (1 / 10000000000))
   \<and> solveQuadratic (Fin (- 1), Fin 0, Fin (1 / 10000000000)) = (NaN, NaN)
   \<and> unsignedDistance [5] [Fin 100000] (Fin 1) [[2]] [Fin 0] [[Fin 1]] = Inl AssertionFailed"
  by (intro conjI c9_frozen c9_coeffs c9_root c9_solve c9_run c9_srun c9_far_coeffs
      c9_far_root c9_far_run)

end
